theory Spec2Isabelle
  imports Complex_Main "HOL-Library.Word" "HOL-Library.AList"
begin

unbundle bit_operations_syntax

section \<open>Shared conventions\<close>

text \<open>
  Exceptions are values. \<open>HTTPException c\<close> is FastAPI's exception with status code \<open>c\<close>;
  the error kinds of the specification are the codes 401 (Unauthenticated),
  403 (Forbidden), 404 (NotFound), 408 (Timeout), 409 (Conflict) and
  429 (TooManyRequests). The remaining constructors are the Python exceptions the
  modelled functions can raise.
\<close>

datatype error =
    HTTPException nat
  | JWTError
  | UnboundLocalError string
  | ValueError string
  | OSError

definition HTTP_401_UNAUTHORIZED :: nat where "HTTP_401_UNAUTHORIZED = 401"
definition HTTP_403_FORBIDDEN :: nat where "HTTP_403_FORBIDDEN = 403"
definition HTTP_404_NOT_FOUND :: nat where "HTTP_404_NOT_FOUND = 404"
definition HTTP_408_REQUEST_TIMEOUT :: nat where "HTTP_408_REQUEST_TIMEOUT = 408"
definition HTTP_409_CONFLICT :: nat where "HTTP_409_CONFLICT = 409"
definition HTTP_429_TOO_MANY_REQUESTS :: nat where "HTTP_429_TOO_MANY_REQUESTS = 429"

text \<open>
  Python truthiness of an \<open>Optional[str]\<close>: \<open>None\<close> and the empty string are false.
\<close>

fun truthy :: "string option \<Rightarrow> bool" where
  "truthy None = False"
| "truthy (Some s) = (s \<noteq> [])"

text \<open>\<open>x or ""\<close> for an \<open>Optional[str]\<close>.\<close>

fun or_empty :: "string option \<Rightarrow> string" where
  "or_empty None = []"
| "or_empty (Some s) = s"

section \<open>Authorization service (\<open>app/core/authorization.py\<close>)\<close>

text \<open>
  A track document as \<open>check_track_access\<close> reads it: \<open>track.get("is_public", False)\<close>
  and \<open>track.get("owner_id")\<close>. A caller is \<open>Optional[UserInDB]\<close>, of which only the
  field \<open>id\<close> is read.
\<close>

record track =
  t_is_public :: bool
  t_owner_id :: "string option"

record userInDB =
  u_id :: string

record track_session =
  ts_track_id :: string
  ts_user_id :: string
  ts_operation :: string
  ts_client_ip :: "string option"
  ts_expires_at :: int
  ts_created_at :: int

text \<open>
  \<open>_create_secure_access_token\<close>: the session id is the first 32 hex digits of a SHA-256
  over the request data, the secret and 16 random bytes; the digest is an input
  (\<open>session_id\<close>) of the model. Time is in seconds; \<open>ttl_minutes\<close> defaults to 30.
  The dictionary \<open>_secure_track_sessions\<close> is an association list in insertion order.
\<close>

definition create_secure_access_token ::
  "(string \<times> track_session) list \<Rightarrow> string \<Rightarrow> int \<Rightarrow> string \<Rightarrow> string \<Rightarrow> string
     \<Rightarrow> string option \<Rightarrow> int \<Rightarrow> string \<times> (string \<times> track_session) list" where
  "create_secure_access_token sessions session_id now track_id user_id operation client_ip
       ttl_minutes =
     (let expires_at = now + 60 * ttl_minutes
      in (session_id,
          AList.update session_id
            \<lparr>ts_track_id = track_id, ts_user_id = user_id, ts_operation = operation,
             ts_client_ip = client_ip, ts_expires_at = expires_at, ts_created_at = now\<rparr>
            sessions))"

text \<open>
  \<open>user and user.id == owner_id\<close>: false for an anonymous caller, otherwise the comparison
  of the caller's id with the (possibly absent) owner id of the track.
\<close>

fun user_is_owner :: "userInDB option \<Rightarrow> string option \<Rightarrow> bool" where
  "user_is_owner None owner_id = False"
| "user_is_owner (Some user) owner_id = (Some (u_id user) = owner_id)"

fun user_id_or_anonymous :: "userInDB option \<Rightarrow> string" where
  "user_id_or_anonymous None = ''anonymous''"
| "user_id_or_anonymous (Some user) = u_id user"

text \<open>
  \<open>AuthorizationService.check_track_access\<close>. \<open>validate_uuid\<close> (of \<open>app.core.validation\<close>)
  and the metadata lookup \<open>get_track_by_id\<close> (of \<open>app.crud.audio\<close>, here \<open>db\<close>) are
  collaborators outside the modelled sources and are parameters. The result is the raised
  exception or the pair \<open>(track, access_token)\<close>, together with the session store.
\<close>

definition check_track_access ::
  "(string \<Rightarrow> error + string) \<Rightarrow> (string \<Rightarrow> track option)
     \<Rightarrow> (string \<times> track_session) list \<Rightarrow> string \<Rightarrow> int
     \<Rightarrow> string \<Rightarrow> userInDB option \<Rightarrow> string \<Rightarrow> string option
     \<Rightarrow> (error + track \<times> string) \<times> (string \<times> track_session) list" where
  "check_track_access validate_uuid db sessions session_id now track_id user operation client_ip =
     (case validate_uuid track_id of
        Inl e \<Rightarrow> (Inl e, sessions)
      | Inr validated_track_id \<Rightarrow>
          (case db validated_track_id of
             None \<Rightarrow> (Inl (HTTPException HTTP_404_NOT_FOUND), sessions)
           | Some track \<Rightarrow>
               (let is_public = t_is_public track;
                    owner_id = t_owner_id track;
                    access_granted =
                      (if operation = ''read'' \<or> operation = ''stream''
                         then is_public \<or> user_is_owner user owner_id
                       else if operation = ''write'' then user_is_owner user owner_id
                       else if operation = ''delete'' then user_is_owner user owner_id
                       else False)
                in if \<not> access_granted
                     then (if user = None
                             then (Inl (HTTPException HTTP_401_UNAUTHORIZED), sessions)
                           else (Inl (HTTPException HTTP_403_FORBIDDEN), sessions))
                   else (let (access_token, sessions') =
                               create_secure_access_token sessions session_id now
                                 validated_track_id (user_id_or_anonymous user) operation
                                 client_ip 30
                         in (Inr (track, access_token), sessions')))))"

text \<open>The access matrix of the specification, written from its table.\<close>

definition access_matrix :: "string \<Rightarrow> bool \<Rightarrow> bool \<Rightarrow> bool" where
  "access_matrix operation is_public is_owner =
     ((operation \<in> {''read'', ''stream''} \<and> (is_public \<or> is_owner)) \<or>
      (operation \<in> {''write'', ''delete''} \<and> is_owner))"

section \<open>Signed URL tokens (\<open>app/core/token_utils.py\<close>)\<close>

text \<open>
  The claims of a token. Every claim is optional in a decoded payload, since any holder
  of the key can sign any payload.
\<close>

record payload =
  p_track_id :: "string option"
  p_exp :: "int option"
  p_ip :: "string option"
  p_rng :: "string option"

text \<open>
  Modelled from the spec: the JWT library (\<open>jose\<close>) is not part of the sources. A token is
  either a string that does not parse, or a payload signed under a key; \<open>jwt_decode\<close>
  rejects what does not parse, what was signed under another key, and a payload whose
  \<open>exp\<close> lies before the current time (in whole seconds). All three are a \<open>JWTError\<close>.
\<close>

datatype jwt = Malformed string | Signed payload string

definition jwt_encode :: "payload \<Rightarrow> string \<Rightarrow> jwt" where
  "jwt_encode pl key = Signed pl key"

fun jwt_decode :: "jwt \<Rightarrow> string \<Rightarrow> int \<Rightarrow> error + payload" where
  "jwt_decode (Malformed s) key now = Inl JWTError"
| "jwt_decode (Signed pl k) key now =
     (if k \<noteq> key then Inl JWTError
      else (case p_exp pl of
              None \<Rightarrow> Inr pl
            | Some exp_claim \<Rightarrow> if exp_claim < now then Inl JWTError else Inr pl))"

definition TOKEN_EXPIRE_MINUTES_DEFAULT :: int where
  "TOKEN_EXPIRE_MINUTES_DEFAULT = 2"

definition create_track_token ::
  "string \<Rightarrow> int \<Rightarrow> string \<Rightarrow> string option \<Rightarrow> string option \<Rightarrow> int \<Rightarrow> jwt" where
  "create_track_token SECRET_KEY now track_id ip range_header expires_minutes =
     (let payload0 = \<lparr>p_track_id = Some track_id, p_exp = Some (now + 60 * expires_minutes),
                      p_ip = None, p_rng = None\<rparr>;
          payload1 = (if truthy ip then payload0\<lparr>p_ip := ip\<rparr> else payload0);
          payload2 = (if truthy range_header then payload1\<lparr>p_rng := range_header\<rparr>
                      else payload1)
      in jwt_encode payload2 SECRET_KEY)"

definition verify_track_token ::
  "string \<Rightarrow> int \<Rightarrow> jwt \<Rightarrow> string \<Rightarrow> string option \<Rightarrow> string option \<Rightarrow> error + unit" where
  "verify_track_token SECRET_KEY now token track_id ip range_header =
     (case jwt_decode token SECRET_KEY now of
        Inl e \<Rightarrow> Inl (HTTPException HTTP_401_UNAUTHORIZED)
      | Inr pl \<Rightarrow>
          if p_track_id pl \<noteq> Some track_id
            then Inl (HTTPException HTTP_403_FORBIDDEN)
          else if truthy ip \<and> truthy (p_ip pl) \<and> p_ip pl \<noteq> ip
            then Inl (HTTPException HTTP_403_FORBIDDEN)
          else if truthy (p_rng pl) \<and> Some (or_empty range_header) \<noteq> p_rng pl
            then Inl (HTTPException HTTP_403_FORBIDDEN)
          else Inr ())"

section \<open>Chaotic stream cipher (\<open>app/core/chaotic_cipher.py\<close>)\<close>

type_synonym byte = "8 word"

text \<open>
  What the cipher takes from outside the sources is collected in one record, so that every
  theorem holds for whatever these components compute:
  \<^item> 64-bit floating-point arithmetic (\<open>rt_add\<close>, \<open>rt_sub\<close>, \<open>rt_mul\<close>, \<open>rt_div\<close>, the
    comparison \<open>rt_less\<close>, the conversions \<open>rt_of_int\<close> and \<open>rt_trunc\<close>, which is Python's
    \<open>int(x)\<close>, and \<open>rt_lit\<close>, the value of a decimal literal);
  \<^item> the primitives of the \<open>cryptography\<close> and \<open>hashlib\<close>/\<open>hmac\<close> packages:
    \<open>rt_pbkdf2 length salt iterations key_material\<close>, \<open>rt_blake2b data person\<close> (with
    \<open>digest_size=32\<close>), \<open>rt_hmac key msg\<close> (HMAC-SHA256), \<open>rt_sha256\<close>, and the
    encodings \<open>rt_hexdigest\<close> and \<open>rt_b64encode\<close>;
  \<^item> \<open>str.encode()\<close>, \<open>str.lower()\<close> and the Unicode character classes behind
    \<open>str.islower\<close>, \<open>str.isupper\<close>, \<open>str.isdigit\<close> and \<open>str.isalnum\<close>.
\<close>

record 'f runtime =
  rt_add :: "'f \<Rightarrow> 'f \<Rightarrow> 'f"
  rt_sub :: "'f \<Rightarrow> 'f \<Rightarrow> 'f"
  rt_mul :: "'f \<Rightarrow> 'f \<Rightarrow> 'f"
  rt_div :: "'f \<Rightarrow> 'f \<Rightarrow> 'f"
  rt_less :: "'f \<Rightarrow> 'f \<Rightarrow> bool"
  rt_of_int :: "int \<Rightarrow> 'f"
  rt_trunc :: "'f \<Rightarrow> int"
  rt_lit :: "rat \<Rightarrow> 'f"
  rt_pbkdf2 :: "nat \<Rightarrow> byte list \<Rightarrow> nat \<Rightarrow> byte list \<Rightarrow> byte list"
  rt_blake2b :: "byte list \<Rightarrow> byte list \<Rightarrow> byte list"
  rt_hmac :: "byte list \<Rightarrow> byte list \<Rightarrow> byte list"
  rt_sha256 :: "byte list \<Rightarrow> byte list"
  rt_hexdigest :: "byte list \<Rightarrow> string"
  rt_b64encode :: "byte list \<Rightarrow> string"
  rt_encode :: "string \<Rightarrow> byte list"
  rt_lower :: "string \<Rightarrow> string"
  rt_islower :: "char \<Rightarrow> bool"
  rt_isupper :: "char \<Rightarrow> bool"
  rt_isdigit :: "char \<Rightarrow> bool"
  rt_isalnum :: "char \<Rightarrow> bool"

text \<open>A bytes literal of ASCII characters.\<close>

definition ascii :: "string \<Rightarrow> byte list" where
  "ascii s = map (\<lambda>c. word_of_nat (of_char c)) s"

subsection \<open>Performance mode\<close>

text \<open>
  \<open>PERFORMANCE_MODE\<close> is the lower-cased value of the environment variable
  \<open>CHAOTIC_PERFORMANCE_MODE\<close> (default \<open>balanced\<close>), read once when the module is
  imported. The module constants are functions of it.
\<close>

definition LATTICE_SIZE :: "string \<Rightarrow> nat" where
  "LATTICE_SIZE PERFORMANCE_MODE =
     (if PERFORMANCE_MODE = ''fast'' then 1
      else if PERFORMANCE_MODE = ''secure'' then 16
      else 8)"

definition TRANSIENT_STEPS :: "string \<Rightarrow> nat" where
  "TRANSIENT_STEPS PERFORMANCE_MODE =
     (if PERFORMANCE_MODE = ''fast'' then 5
      else if PERFORMANCE_MODE = ''secure'' then 1000
      else 500)"

definition PBKDF2_ITERATIONS :: "string \<Rightarrow> nat" where
  "PBKDF2_ITERATIONS PERFORMANCE_MODE =
     (if PERFORMANCE_MODE = ''fast'' then 10
      else if PERFORMANCE_MODE = ''secure'' then 10000
      else 5000)"

definition CHUNK_SIZE :: "string \<Rightarrow> nat" where
  "CHUNK_SIZE PERFORMANCE_MODE = (if PERFORMANCE_MODE = ''fast'' then 8192 else 2048)"

definition scramble_freq :: "string \<Rightarrow> nat" where
  "scramble_freq PERFORMANCE_MODE = (if PERFORMANCE_MODE = ''fast'' then 50 else 100)"

subsection \<open>Initialisation of the lattice\<close>

text \<open>Python's slice \<open>xs[a:b]\<close> for \<open>0 \<le> a \<le> b\<close>, and \<open>int.from_bytes(bs, 'big')\<close>.\<close>

definition slice :: "'a list \<Rightarrow> nat \<Rightarrow> nat \<Rightarrow> 'a list" where
  "slice xs a b = take (b - a) (drop a xs)"

definition int_from_bytes_big :: "byte list \<Rightarrow> int" where
  "int_from_bytes_big bs = foldl (\<lambda>acc b. acc * 256 + uint b) 0 bs"

definition seed_bytes :: "byte list \<Rightarrow> nat \<Rightarrow> byte list" where
  "seed_bytes key i =
     (if i * 2 + 1 < length key then slice key (i * 2) ((i + 1) * 2)
      else slice key (i mod 16) (i mod 16 + 2))"

text \<open>
  \<open>_initialize_cml\<close>. When no salt is passed the function draws \<open>secrets.token_bytes(32)\<close>;
  the drawn bytes are the argument \<open>token_bytes\<close> of the model.
\<close>

definition initialize_cml ::
  "'f runtime \<Rightarrow> string \<Rightarrow> byte list \<Rightarrow> string \<Rightarrow> byte list option
     \<Rightarrow> 'f list \<times> 'f list \<times> 'f \<times> byte list" where
  "initialize_cml rt PERFORMANCE_MODE token_bytes secret_key salt_arg =
     (let salt = (case salt_arg of None \<Rightarrow> token_bytes | Some s \<Rightarrow> s);
          master_key = rt_pbkdf2 rt 64 salt (PBKDF2_ITERATIONS PERFORMANCE_MODE)
                         (rt_encode rt secret_key);
          x_key = rt_blake2b rt master_key (ascii ''CML_INIT_STATE'');
          r_key = rt_blake2b rt master_key (ascii ''CML_PARAMETERS'');
          eps_key = rt_blake2b rt master_key (ascii ''CML_COUPLING'');
          x = map (\<lambda>i. let seed_val = int_from_bytes_big (seed_bytes x_key i)
                        in rt_add rt (rt_lit rt (1 / 10))
                             (rt_mul rt (rt_div rt (rt_of_int rt seed_val) (rt_lit rt 65535))
                                (rt_lit rt (8 / 10))))
                [0..<LATTICE_SIZE PERFORMANCE_MODE];
          r = map (\<lambda>i. let seed_val = int_from_bytes_big (seed_bytes r_key i)
                        in rt_add rt (rt_lit rt (38 / 10))
                             (rt_mul rt (rt_div rt (rt_of_int rt seed_val) (rt_lit rt 65535))
                                (rt_lit rt (2 / 10))))
                [0..<LATTICE_SIZE PERFORMANCE_MODE];
          eps_val = int_from_bytes_big (slice eps_key 0 4);
          epsilon = rt_add rt (rt_lit rt (1 / 10))
                      (rt_mul rt (rt_div rt (rt_of_int rt eps_val) (rt_of_int rt (2 ^ 32 - 1)))
                         (rt_lit rt (3 / 10)))
      in (x, r, epsilon, salt))"

subsection \<open>Keystream\<close>

text \<open>\<open>np.roll(x, 1)\<close> and \<open>np.roll(x, -1)\<close> on a one-dimensional array.\<close>

definition roll1 :: "'a list \<Rightarrow> 'a list" where
  "roll1 xs = (if xs = [] then [] else last xs # butlast xs)"

definition roll_minus1 :: "'a list \<Rightarrow> 'a list" where
  "roll_minus1 xs = rotate1 xs"

text \<open>
  One evolution step, the three assignments shared by the transient loop and the
  emission loop:
  \<^verbatim>\<open>x_current = r * x_current * (1 - x_current)\<close>,
  \<^verbatim>\<open>coupled = (np.roll(x_current, 1) + np.roll(x_current, -1)) * 0.5\<close>,
  \<^verbatim>\<open>x_current = (1 - epsilon) * x_current + epsilon * coupled\<close>.
  The arrays \<open>x\<close> and \<open>r\<close> have the same length (\<open>LATTICE_SIZE\<close>), so the elementwise
  operations are \<open>map2\<close>.
\<close>

definition evolve :: "'f runtime \<Rightarrow> 'f list \<Rightarrow> 'f \<Rightarrow> 'f list \<Rightarrow> 'f list" where
  "evolve rt r epsilon x_current =
     (let x1 = map2 (\<lambda>rx xi. rt_mul rt rx (rt_sub rt (rt_of_int rt 1) xi))
                 (map2 (rt_mul rt) r x_current) x_current;
          coupled = map (\<lambda>s. rt_mul rt s (rt_lit rt (1 / 2)))
                      (map2 (rt_add rt) (roll1 x1) (roll_minus1 x1))
      in map2 (rt_add rt)
           (map (rt_mul rt (rt_sub rt (rt_of_int rt 1) epsilon)) x1)
           (map (rt_mul rt epsilon) coupled))"

definition transient_step ::
  "'f runtime \<Rightarrow> string \<Rightarrow> 'f list \<Rightarrow> 'f \<Rightarrow> nat \<Rightarrow> 'f list \<Rightarrow> 'f list" where
  "transient_step rt PERFORMANCE_MODE r epsilon i x_current =
     (let x' = evolve rt r epsilon x_current
      in if i mod scramble_freq PERFORMANCE_MODE = 0 then roll1 x' else x')"

definition transient ::
  "'f runtime \<Rightarrow> string \<Rightarrow> 'f list \<Rightarrow> 'f \<Rightarrow> 'f list \<Rightarrow> 'f list" where
  "transient rt PERFORMANCE_MODE r epsilon x =
     fold (transient_step rt PERFORMANCE_MODE r epsilon) [0..<TRANSIENT_STEPS PERFORMANCE_MODE] x"

text \<open>
  The output function: the loop over \<open>j in range(LATTICE_SIZE)\<close> and the additional
  mixing. Python integers are unbounded, so the shifts are on \<open>int\<close> and each mask
  \<open>& 0xFF\<close> is written out. The array has \<open>LATTICE_SIZE\<close> entries, so \<open>x_current[j]\<close>
  is in range.
\<close>

definition mix_node :: "'f runtime \<Rightarrow> string \<Rightarrow> 'f list \<Rightarrow> nat \<Rightarrow> int \<Rightarrow> int" where
  "mix_node rt PERFORMANCE_MODE x_current j byte_val =
     (let val = rt_trunc rt (rt_mul rt (x_current ! j) (rt_of_int rt 255)) AND 255
      in if PERFORMANCE_MODE = ''fast'' then byte_val XOR val
         else (let rotated = (push_bit (j mod 8) val OR drop_bit (8 - j mod 8) val) AND 255
               in byte_val XOR rotated))"

definition output_byte :: "'f runtime \<Rightarrow> string \<Rightarrow> 'f list \<Rightarrow> byte" where
  "output_byte rt PERFORMANCE_MODE x_current =
     (let byte_val0 = fold (mix_node rt PERFORMANCE_MODE x_current)
                        [0..<LATTICE_SIZE PERFORMANCE_MODE] 0;
          byte_val =
            (if PERFORMANCE_MODE \<noteq> ''fast''
               then (let b1 = byte_val0 XOR (push_bit 1 byte_val0 AND 255)
                     in b1 XOR (drop_bit 1 b1 AND 255))
             else byte_val0)
      in word_of_int (byte_val AND 255))"

text \<open>
  The inner loop \<open>for i in range(chunk_size)\<close>: it threads \<open>x_current\<close> and fills
  \<open>chunk_data\<close>.
\<close>

fun chunk_bytes ::
  "'f runtime \<Rightarrow> string \<Rightarrow> 'f list \<Rightarrow> 'f \<Rightarrow> nat \<Rightarrow> 'f list \<Rightarrow> 'f list \<times> byte list" where
  "chunk_bytes rt PERFORMANCE_MODE r epsilon 0 x_current = (x_current, [])"
| "chunk_bytes rt PERFORMANCE_MODE r epsilon (Suc n) x_current =
     (let x' = evolve rt r epsilon x_current;
          b = output_byte rt PERFORMANCE_MODE x';
          (x'', bs) = chunk_bytes rt PERFORMANCE_MODE r epsilon n x'
      in (x'', b # bs))"

text \<open>
  The outer loop \<open>for chunk_start in range(0, length, CHUNK_SIZE)\<close>, with the chunk size
  as an argument \<open>cs\<close>. (\<open>range\<close> raises for a step of 0; \<open>CHUNK_SIZE\<close> is 8192 or 2048.)
\<close>

function chunk_loop ::
  "'f runtime \<Rightarrow> string \<Rightarrow> 'f list \<Rightarrow> 'f \<Rightarrow> nat \<Rightarrow> nat \<Rightarrow> nat \<Rightarrow> 'f list \<Rightarrow> byte list
     \<Rightarrow> byte list" where
  "chunk_loop rt PERFORMANCE_MODE r epsilon cs len chunk_start x_current keystream =
     (if cs = 0 \<or> len \<le> chunk_start then keystream
      else (let chunk_size = min cs (len - chunk_start);
                (x', chunk_data) = chunk_bytes rt PERFORMANCE_MODE r epsilon chunk_size x_current
            in chunk_loop rt PERFORMANCE_MODE r epsilon cs len (chunk_start + cs) x'
                 (keystream @ chunk_data)))"
  by pat_completeness auto
termination
  by (relation "measure (\<lambda>(rt, m, r, e, cs, len, chunk_start, x, ks). len - chunk_start)") auto

definition generate_keystream_cml ::
  "'f runtime \<Rightarrow> string \<Rightarrow> 'f list \<Rightarrow> 'f list \<Rightarrow> 'f \<Rightarrow> nat \<Rightarrow> byte list" where
  "generate_keystream_cml rt PERFORMANCE_MODE x r epsilon len =
     (let x_current = transient rt PERFORMANCE_MODE r epsilon x
      in chunk_loop rt PERFORMANCE_MODE r epsilon (CHUNK_SIZE PERFORMANCE_MODE) len 0
           x_current [])"

text \<open>
  The generation loop with the chunk size as a parameter, and the keystream without
  chunking (one byte per evolution step), against which the chunked loop is compared.
\<close>

definition keystream_chunked ::
  "'f runtime \<Rightarrow> string \<Rightarrow> nat \<Rightarrow> 'f list \<Rightarrow> 'f list \<Rightarrow> 'f \<Rightarrow> nat \<Rightarrow> byte list" where
  "keystream_chunked rt PERFORMANCE_MODE cs x r epsilon len =
     chunk_loop rt PERFORMANCE_MODE r epsilon cs len 0
       (transient rt PERFORMANCE_MODE r epsilon x) []"

definition keystream_unchunked ::
  "'f runtime \<Rightarrow> string \<Rightarrow> 'f list \<Rightarrow> 'f list \<Rightarrow> 'f \<Rightarrow> nat \<Rightarrow> byte list" where
  "keystream_unchunked rt PERFORMANCE_MODE x r epsilon len =
     snd (chunk_bytes rt PERFORMANCE_MODE r epsilon len
            (transient rt PERFORMANCE_MODE r epsilon x))"

subsection \<open>Authenticated encryption\<close>

definition too_short :: error where
  "too_short = ValueError ''Invalid data - too short''"

definition integrity_failure :: error where
  "integrity_failure =
     ValueError ''Integrity verification failed - data may have been tampered with''"

definition weak_key :: error where
  "weak_key = ValueError
     ''Secret key not strong enough. Need at least 12 characters with 3 different types.''"

definition too_large :: error where
  "too_large = ValueError ''Data too large (>50MB)''"

definition hmac_key_of :: "'f runtime \<Rightarrow> string \<Rightarrow> byte list \<Rightarrow> string \<Rightarrow> byte list" where
  "hmac_key_of rt PERFORMANCE_MODE salt secret_key =
     rt_pbkdf2 rt 32 (salt @ ascii ''HMAC_DERIVE'') (PBKDF2_ITERATIONS PERFORMANCE_MODE)
       (rt_encode rt secret_key)"

definition encrypt :: "'f runtime \<Rightarrow> string \<Rightarrow> byte list \<Rightarrow> byte list \<Rightarrow> string \<Rightarrow> byte list" where
  "encrypt rt PERFORMANCE_MODE token_bytes data secret_key =
     (let (x, r, epsilon, salt) = initialize_cml rt PERFORMANCE_MODE token_bytes secret_key None;
          keystream = generate_keystream_cml rt PERFORMANCE_MODE x r epsilon (length data);
          encrypted_data = map2 (XOR) data keystream;
          hmac_key = hmac_key_of rt PERFORMANCE_MODE salt secret_key;
          mac = rt_hmac rt hmac_key (salt @ encrypted_data)
      in salt @ mac @ encrypted_data)"

definition decrypt :: "'f runtime \<Rightarrow> string \<Rightarrow> byte list \<Rightarrow> string \<Rightarrow> error + byte list" where
  "decrypt rt PERFORMANCE_MODE data secret_key =
     (if length data < 64 then Inl too_short
      else (let salt = slice data 0 32;
                received_mac = slice data 32 64;
                encrypted_data = drop 64 data;
                hmac_key = hmac_key_of rt PERFORMANCE_MODE salt secret_key;
                expected_mac = rt_hmac rt hmac_key (salt @ encrypted_data)
            in if expected_mac \<noteq> received_mac then Inl integrity_failure
               else (let (x, r, epsilon, _) =
                           initialize_cml rt PERFORMANCE_MODE [] secret_key (Some salt);
                         keystream = generate_keystream_cml rt PERFORMANCE_MODE x r epsilon
                                       (length encrypted_data)
                     in Inr (map2 (XOR) encrypted_data keystream))))"

definition validate_key_strength :: "'f runtime \<Rightarrow> string \<Rightarrow> bool" where
  "validate_key_strength rt secret_key =
     (if length secret_key < 12 then False
      else (let has_lower = list_ex (rt_islower rt) secret_key;
                has_upper = list_ex (rt_isupper rt) secret_key;
                has_digit = list_ex (rt_isdigit rt) secret_key;
                has_special = list_ex (\<lambda>c. \<not> rt_isalnum rt c) secret_key;
                char_types = sum_list (map of_bool [has_lower, has_upper, has_digit, has_special])
            in (3::nat) \<le> char_types))"

text \<open>
  \<open>analyze_chaos_parameters\<close>: the warnings, in the order the function appends them, and
  \<open>is_chaotic\<close>. (The informational entry \<open>parameters\<close> of the returned dictionary is
  left out; nothing reads it.)
\<close>

datatype warning = R_not_chaotic nat | X_near_fixed_point nat | Epsilon_too_small | Epsilon_too_large

record analysis =
  is_chaotic :: bool
  warnings :: "warning list"

definition analyze_chaos_parameters :: "'f runtime \<Rightarrow> 'f list \<Rightarrow> 'f list \<Rightarrow> 'f \<Rightarrow> analysis" where
  "analyze_chaos_parameters rt x r epsilon =
     (let w_r = concat (map (\<lambda>(i, r_val).
                   if rt_less rt r_val (rt_lit rt (357 / 100)) \<or> rt_less rt (rt_lit rt 4) r_val
                     then [R_not_chaotic i] else []) (enumerate 0 r));
          w_x = concat (map (\<lambda>(i, x_val).
                   if \<not> rt_less rt (rt_lit rt (5 / 100)) x_val \<or> \<not> rt_less rt x_val (rt_lit rt (95 / 100))
                     then [X_near_fixed_point i] else []) (enumerate 0 x));
          w_e = (if rt_less rt epsilon (rt_lit rt (5 / 100)) then [Epsilon_too_small]
                 else if rt_less rt (rt_lit rt (5 / 10)) epsilon then [Epsilon_too_large]
                 else []);
          ws = w_r @ w_x @ w_e
      in \<lparr>is_chaotic = (ws = []), warnings = ws\<rparr>)"

text \<open>
  \<open>encrypt_with_validation\<close>. The function calls \<open>_initialize_cml(secret_key)\<close> itself and
  then \<open>encrypt(data, secret_key)\<close>, which calls it again; each call draws its own salt,
  \<open>token_bytes1\<close> and \<open>token_bytes2\<close> in the order of the draws. The second component of
  the result is the list of warnings handed to the logger.
\<close>

definition encrypt_with_validation ::
  "'f runtime \<Rightarrow> string \<Rightarrow> byte list \<Rightarrow> byte list \<Rightarrow> byte list \<Rightarrow> string
     \<Rightarrow> (error + byte list) \<times> warning list" where
  "encrypt_with_validation rt PERFORMANCE_MODE token_bytes1 token_bytes2 data secret_key =
     (if \<not> validate_key_strength rt secret_key then (Inl weak_key, [])
      else if length data > 50 * 1024 * 1024 then (Inl too_large, [])
      else (let (x, r, epsilon, salt) =
                  initialize_cml rt PERFORMANCE_MODE token_bytes1 secret_key None;
                chaos_analysis = analyze_chaos_parameters rt x r epsilon;
                logged = (if \<not> is_chaotic chaos_analysis then warnings chaos_analysis else [])
            in (Inr (encrypt rt PERFORMANCE_MODE token_bytes2 data secret_key), logged)))"

definition decrypt_with_validation ::
  "'f runtime \<Rightarrow> string \<Rightarrow> byte list \<Rightarrow> string \<Rightarrow> error + byte list" where
  "decrypt_with_validation rt PERFORMANCE_MODE data secret_key =
     (if \<not> validate_key_strength rt secret_key then Inl weak_key
      else decrypt rt PERFORMANCE_MODE data secret_key)"

text \<open>
  The MAC that \<open>decrypt\<close> recomputes from a blob (its \<open>expected_mac\<close>), and the three
  fields of a blob.
\<close>

definition expected_mac_of :: "'f runtime \<Rightarrow> string \<Rightarrow> byte list \<Rightarrow> string \<Rightarrow> byte list" where
  "expected_mac_of rt PERFORMANCE_MODE data secret_key =
     (let salt = slice data 0 32; encrypted_data = drop 64 data
      in rt_hmac rt (hmac_key_of rt PERFORMANCE_MODE salt secret_key) (salt @ encrypted_data))"

text \<open>
  A concrete runtime on which the definitions can be evaluated: exact rational
  arithmetic, ASCII character classes, and small stand-ins for the cryptographic
  primitives (with the output lengths of the real ones).
\<close>

definition test_runtime :: "rat runtime" where
  "test_runtime =
     \<lparr>rt_add = (+), rt_sub = (-), rt_mul = (*), rt_div = (/), rt_less = (<),
      rt_of_int = of_int, rt_trunc = (\<lambda>x. if 0 \<le> x then \<lfloor>x\<rfloor> else \<lceil>x\<rceil>), rt_lit = (\<lambda>q. q),
      rt_pbkdf2 = (\<lambda>len salt iterations km. take len (concat (replicate len (km @ salt @ [0])))),
      rt_blake2b = (\<lambda>d person. take 32 (concat (replicate 32 (d @ person @ [1])))),
      rt_hmac = (\<lambda>k msg. replicate 32 (sum_list (k @ msg))),
      rt_sha256 = (\<lambda>d. replicate 32 (sum_list d)),
      rt_hexdigest = map (\<lambda>b. char_of (unat b)),
      rt_b64encode = (\<lambda>d. map (\<lambda>b. char_of (unat b)) d @ ''Aa0=''),
      rt_encode = ascii,
      rt_lower = (\<lambda>s. s),
      rt_islower = (\<lambda>c. 97 \<le> (of_char c :: nat) \<and> (of_char c :: nat) \<le> 122),
      rt_isupper = (\<lambda>c. 65 \<le> (of_char c :: nat) \<and> (of_char c :: nat) \<le> 90),
      rt_isdigit = (\<lambda>c. 48 \<le> (of_char c :: nat) \<and> (of_char c :: nat) \<le> 57),
      rt_isalnum = (\<lambda>c. (97 \<le> (of_char c :: nat) \<and> (of_char c :: nat) \<le> 122)
                       \<or> (65 \<le> (of_char c :: nat) \<and> (of_char c :: nat) \<le> 90)
                       \<or> (48 \<le> (of_char c :: nat) \<and> (of_char c :: nat) \<le> 57))\<rparr>"

text \<open>
  The assumption made of the MAC, stated on the primitives. The tag of a message
  \<open>msg = salt || ciphertext\<close> is the HMAC-SHA256 of \<open>msg\<close> under the key that PBKDF2 derives
  from the password and the salt \<open>msg[:32] || "HMAC_DERIVE"\<close>. The tag of \<open>msg\<close> differs
  from the tag of every message obtained from \<open>msg\<close> by changing one byte.
\<close>

definition mac_separates_single_bytes ::
  "'f runtime \<Rightarrow> string \<Rightarrow> string \<Rightarrow> byte list \<Rightarrow> bool" where
  "mac_separates_single_bytes rt PERFORMANCE_MODE secret_key msg =
     (\<forall>j c. j < length msg \<longrightarrow> c \<noteq> msg ! j \<longrightarrow>
        rt_hmac rt
          (rt_pbkdf2 rt 32 (take 32 (msg[j := c]) @ ascii ''HMAC_DERIVE'')
             (PBKDF2_ITERATIONS PERFORMANCE_MODE) (rt_encode rt secret_key))
          (msg[j := c])
        \<noteq> rt_hmac rt
            (rt_pbkdf2 rt 32 (take 32 msg @ ascii ''HMAC_DERIVE'')
               (PBKDF2_ITERATIONS PERFORMANCE_MODE) (rt_encode rt secret_key))
            msg)"

text \<open>
  The test runtime with a MAC that is a checksum of the message alone, which separates
  single-byte variants, and a blob encrypted on it.
\<close>

definition mac_test_runtime :: "rat runtime" where
  "mac_test_runtime = test_runtime\<lparr>rt_hmac := (\<lambda>k msg. replicate 32 (sum_list msg))\<rparr>"

definition mac_test_blob :: "byte list" where
  "mac_test_blob =
     encrypt mac_test_runtime ''balanced'' (replicate 32 7) (ascii ''hello'') ''Str0ng-Pass!''"

section \<open>HLS segment cleanup (\<open>app/core/hls_cleanup.py\<close>)\<close>

text \<open>
  The tree under the HLS root as \<open>os.walk\<close> presents it: a directory has a name, its
  files (name and modification time) and its subdirectories. A path is the list of names
  from the root. Times are exact rationals, in seconds.
\<close>

datatype dir = Dir (d_name: string) (d_files: "(string \<times> rat) list") (d_dirs: "dir list")

type_synonym path = "string list"

definition HLS_DIRECTORY :: string where "HLS_DIRECTORY = ''hls''"

definition SEGMENT_EXT :: string where "SEGMENT_EXT = ''.ts''"

definition endswith :: "string \<Rightarrow> string \<Rightarrow> bool" where
  "endswith s suffix =
     (length suffix \<le> length s \<and> drop (length s - length suffix) s = suffix)"

text \<open>
  The body of the loop over the files of one directory: a file is removed when its name
  ends in \<open>.ts\<close>, \<open>now - mtime > age_seconds\<close>, and \<open>os.remove\<close> does not raise. The
  predicate \<open>fails\<close> tells for which paths a removal raises (the \<open>except\<close> branches, and
  \<open>rmtree(ignore_errors=True)\<close>): such a file or directory stays.
\<close>

definition removes_file :: "(path \<Rightarrow> bool) \<Rightarrow> rat \<Rightarrow> int \<Rightarrow> path \<Rightarrow> string \<times> rat \<Rightarrow> bool" where
  "removes_file fails now age_seconds dirpath f =
     (case f of (file, mtime) \<Rightarrow>
        endswith file SEGMENT_EXT \<and> now - mtime > of_int age_seconds \<and> \<not> fails (dirpath @ [file]))"

text \<open>
  \<open>_cleanup_once\<close> on the directory \<open>name\<close> below \<open>parent\<close>. The walk is bottom-up
  (\<open>topdown=False\<close>): the subdirectories are handled first, then the files of the
  directory, then the directory itself, which is removed when \<open>os.listdir\<close> finds it
  empty and it is not the HLS root. The result is \<open>None\<close> when the directory is removed.
\<close>

fun cleanup_dir :: "(path \<Rightarrow> bool) \<Rightarrow> rat \<Rightarrow> int \<Rightarrow> path \<Rightarrow> dir \<Rightarrow> dir option" where
  "cleanup_dir fails now age_seconds parent (Dir name files dirs) =
     (let dirpath = parent @ [name];
          dirs' = concat (map (\<lambda>d. case cleanup_dir fails now age_seconds dirpath d of
                                      None \<Rightarrow> [] | Some d' \<Rightarrow> [d']) dirs);
          files' = filter (\<lambda>f. \<not> removes_file fails now age_seconds dirpath f) files
      in if dirpath = [HLS_DIRECTORY] then Some (Dir name files' dirs')
         else if files' = [] \<and> dirs' = [] \<and> \<not> fails dirpath then None
         else Some (Dir name files' dirs'))"

definition cleanup_once :: "(path \<Rightarrow> bool) \<Rightarrow> rat \<Rightarrow> int \<Rightarrow> dir \<Rightarrow> dir option" where
  "cleanup_once fails now age_seconds hls = cleanup_dir fails now age_seconds [] hls"

text \<open>All files (with their paths) and all directory nodes (with their parents' paths) of a tree.\<close>

fun all_files :: "path \<Rightarrow> dir \<Rightarrow> (path \<times> rat) list" where
  "all_files parent (Dir name files dirs) =
     map (\<lambda>(file, mtime). (parent @ [name, file], mtime)) files
     @ concat (map (all_files (parent @ [name])) dirs)"

fun all_dirs :: "path \<Rightarrow> dir \<Rightarrow> (path \<times> dir) list" where
  "all_dirs parent (Dir name files dirs) =
     (parent, Dir name files dirs) # concat (map (all_dirs (parent @ [name])) dirs)"

section \<open>File-lock manager (\<open>app/core/file_lock_manager.py\<close>)\<close>

text \<open>
  A Python set of strings is kept as a list without repetitions; \<open>len\<close> is its length.
\<close>

definition set_add :: "string \<Rightarrow> string list \<Rightarrow> string list" where
  "set_add x xs = (if x \<in> set xs then xs else xs @ [x])"

definition set_discard :: "string \<Rightarrow> string list \<Rightarrow> string list" where
  "set_discard x xs = removeAll x xs"

record lock_data =
  l_track_id :: string
  l_user_id :: string
  l_operation :: string
  l_created_at :: int
  l_expires_at :: int
  l_process_id :: string

text \<open>
  The module state: \<open>_processing_locks\<close>, \<open>_file_locks\<close> (for each track whether its
  \<open>asyncio.Lock\<close> is held), \<open>_user_processing\<close>, and the manager's \<open>last_cleanup\<close>.
  Dictionaries are association lists in insertion order. Time is in seconds.
\<close>

record lock_state =
  processing_locks :: "(string \<times> lock_data) list"
  file_locks :: "(string \<times> bool) list"
  user_processing :: "(string \<times> string list) list"
  last_cleanup :: int

definition max_concurrent_per_user :: nat where "max_concurrent_per_user = 3"
definition lock_timeout_minutes :: int where "lock_timeout_minutes = 30"
definition cleanup_interval :: int where "cleanup_interval = 300"

definition is_lock_expired :: "int \<Rightarrow> lock_data \<Rightarrow> bool" where
  "is_lock_expired now lock_data = (now > l_expires_at lock_data)"

definition release_processing_lock :: "lock_state \<Rightarrow> string \<Rightarrow> lock_state" where
  "release_processing_lock st lock_key =
     (case map_of (processing_locks st) lock_key of
        None \<Rightarrow> st
      | Some lock_data \<Rightarrow>
          (let user_id = l_user_id lock_data;
               track_id = l_track_id lock_data;
               st1 = st\<lparr>processing_locks := AList.delete lock_key (processing_locks st)\<rparr>
           in (case map_of (user_processing st1) user_id of
                 None \<Rightarrow> st1
               | Some tracks \<Rightarrow>
                   (let tracks' = set_discard track_id tracks
                    in if tracks' = []
                         then st1\<lparr>user_processing := AList.delete user_id (user_processing st1)\<rparr>
                       else st1\<lparr>user_processing :=
                                   AList.update user_id tracks' (user_processing st1)\<rparr>))))"

definition get_user_processing_count :: "lock_state \<Rightarrow> string \<Rightarrow> nat" where
  "get_user_processing_count st user_id =
     (case map_of (user_processing st) user_id of None \<Rightarrow> 0 | Some tracks \<Rightarrow> length tracks)"

definition cleanup_expired_locks :: "lock_state \<Rightarrow> int \<Rightarrow> lock_state" where
  "cleanup_expired_locks st now =
     (if now - last_cleanup st < cleanup_interval then st
      else (let expired_locks =
                  map fst (filter (\<lambda>(lock_key, lock_data). is_lock_expired now lock_data)
                             (processing_locks st));
                st1 = fold (\<lambda>lock_key s. release_processing_lock s lock_key) expired_locks st
            in st1\<lparr>last_cleanup := now\<rparr>))"

text \<open>
  \<open>raise HTTPException(status_code=...)\<close> inside \<open>acquire_processing_lock\<close>. The only
  import of \<open>HTTPException\<close> and \<open>status\<close> in the module is the statement
  \<open>from fastapi import HTTPException, status\<close> in the body of the first \<open>if\<close> of that
  function. An import inside a function binds local names, so both are local variables
  of the function, bound only once that statement has run; evaluating \<open>HTTPException\<close>
  before raises \<open>UnboundLocalError\<close>. The flag \<open>imported\<close> says whether the statement
  has run.
\<close>

definition raise_HTTPException :: "bool \<Rightarrow> nat \<Rightarrow> error" where
  "raise_HTTPException imported status_code =
     (if imported then HTTPException status_code else UnboundLocalError ''HTTPException'')"

text \<open>
  The part of \<open>acquire_processing_lock\<close> from \<open># Acquire file-level lock\<close> to the
  \<open>yield\<close>. When the track's \<open>asyncio.Lock\<close> is held, the model follows the path on
  which the holder does not release it within \<open>max_wait_seconds\<close>: \<open>wait_for\<close> raises
  \<open>TimeoutError\<close>, the handler raises, and the \<open>finally\<close> clause releases the lock it finds
  locked. \<open>process_id\<close> is the digest computed by \<open>_generate_process_id\<close>.
\<close>

definition acquire_file_lock ::
  "lock_state \<Rightarrow> int \<Rightarrow> string \<Rightarrow> string \<Rightarrow> string \<Rightarrow> string \<Rightarrow> string
     \<Rightarrow> (error + lock_data) \<times> lock_state" where
  "acquire_file_lock st now process_id lock_key track_id user_id operation =
     (let st1 = (if map_of (file_locks st) track_id = None
                   then st\<lparr>file_locks := AList.update track_id False (file_locks st)\<rparr>
                 else st)
      in if map_of (file_locks st1) track_id = Some True
           then (Inl (raise_HTTPException False HTTP_408_REQUEST_TIMEOUT),
                 st1\<lparr>file_locks := AList.update track_id False (file_locks st1)\<rparr>)
         else (let lock_data = \<lparr>l_track_id = track_id, l_user_id = user_id,
                                 l_operation = operation, l_created_at = now,
                                 l_expires_at = now + 60 * lock_timeout_minutes,
                                 l_process_id = process_id\<rparr>;
                   tracks = (case map_of (user_processing st1) user_id of
                               None \<Rightarrow> [] | Some ts \<Rightarrow> ts)
               in (Inr lock_data,
                   st1\<lparr>file_locks := AList.update track_id True (file_locks st1),
                       processing_locks := AList.update lock_key lock_data (processing_locks st1),
                       user_processing := AList.update user_id (set_add track_id tracks)
                                            (user_processing st1)\<rparr>)))"

text \<open>
  \<open>acquire_processing_lock\<close> up to its \<open>yield\<close>: the raised exception or the yielded
  \<open>lock_data\<close>, and the state.
\<close>

definition acquire_processing_lock ::
  "lock_state \<Rightarrow> int \<Rightarrow> string \<Rightarrow> string \<Rightarrow> string \<Rightarrow> string
     \<Rightarrow> (error + lock_data) \<times> lock_state" where
  "acquire_processing_lock st now process_id track_id user_id operation =
     (let lock_key = track_id @ '':'' @ operation;
          st1 = cleanup_expired_locks st now
      in if get_user_processing_count st1 user_id \<ge> max_concurrent_per_user
           then (Inl (raise_HTTPException True HTTP_429_TOO_MANY_REQUESTS), st1)
         else (case map_of (processing_locks st1) lock_key of
                 Some existing_lock \<Rightarrow>
                   if l_user_id existing_lock = user_id
                     then (Inl (raise_HTTPException False HTTP_409_CONFLICT), st1)
                   else if is_lock_expired now existing_lock
                     then acquire_file_lock (release_processing_lock st1 lock_key) now
                            process_id lock_key track_id user_id operation
                   else (Inl (raise_HTTPException False HTTP_409_CONFLICT), st1)
               | None \<Rightarrow>
                   acquire_file_lock st1 now process_id lock_key track_id user_id operation))"

text \<open>
  Leaving the guarded block: the inner \<open>finally\<close> releases the processing lock, the
  outer one the file lock if it is held.
\<close>

definition release_after_yield :: "lock_state \<Rightarrow> string \<Rightarrow> string \<Rightarrow> lock_state" where
  "release_after_yield st track_id operation =
     (let st1 = release_processing_lock st (track_id @ '':'' @ operation)
      in if map_of (file_locks st1) track_id = Some True
           then st1\<lparr>file_locks := AList.update track_id False (file_locks st1)\<rparr>
         else st1)"

text \<open>States on which the acquisition is evaluated below.\<close>

definition lock_of :: "string \<Rightarrow> string \<Rightarrow> int \<Rightarrow> lock_data" where
  "lock_of track_id user_id created =
     \<lparr>l_track_id = track_id, l_user_id = user_id, l_operation = ''processing'',
      l_created_at = created, l_expires_at = created + 1800, l_process_id = ''p''\<rparr>"

definition one_lock_state :: lock_state where
  "one_lock_state =
     \<lparr>processing_locks = [(''T1:processing'', lock_of ''T1'' ''alice'' 0)],
      file_locks = [(''T1'', True)],
      user_processing = [(''alice'', [''T1''])],
      last_cleanup = 0\<rparr>"

definition three_locks_state :: lock_state where
  "three_locks_state =
     \<lparr>processing_locks = [(''T1:processing'', lock_of ''T1'' ''alice'' 0),
                          (''T2:processing'', lock_of ''T2'' ''alice'' 0),
                          (''T3:processing'', lock_of ''T3'' ''alice'' 0)],
      file_locks = [(''T1'', True), (''T2'', True), (''T3'', True)],
      user_processing = [(''alice'', [''T1'', ''T2'', ''T3''])],
      last_cleanup = 0\<rparr>"

definition expired_lock_state :: lock_state where
  "expired_lock_state =
     \<lparr>processing_locks = [(''T1:processing'', lock_of ''T1'' ''alice'' 0)],
      file_locks = [(''T1'', False)],
      user_processing = [(''alice'', [''T1''])],
      last_cleanup = 1900\<rparr>"

text \<open>The tree of the specification's sweep scenario, with a directory of expired segments added.\<close>

definition scenario_hls :: dir where
  "scenario_hls =
     Dir ''hls'' []
       [Dir ''a'' [(''seg_000.ts'', 300), (''seg_001.ts'', 900), (''stream.m3u8'', 100)] [],
        Dir ''b'' [(''seg_000.ts'', 200)] []]"

text \<open>
  A directory whose only content is a subdirectory of expired segments: when the removal of
  the subdirectory fails, the directory is not empty and stays.
\<close>

definition nested_hls :: dir where
  "nested_hls = Dir ''hls'' [] [Dir ''c'' [] [Dir ''d'' [(''seg_000.ts'', 200)] []]]"

section \<open>Audio protection facade (\<open>app/core/chaotic_audio_protection.py\<close>)\<close>

text \<open>
  The module \<open>chaotic_cipher\<close> is imported at the top of \<open>chaotic_audio_protection\<close>; its
  constant \<open>PERFORMANCE_MODE\<close> is computed then, from the environment of that moment, and
  every function of the cipher reads that constant.
\<close>

definition import_chaotic_cipher :: "'f runtime \<Rightarrow> (string \<rightharpoonup> string) \<Rightarrow> string" where
  "import_chaotic_cipher rt environ =
     rt_lower rt (case environ ''CHAOTIC_PERFORMANCE_MODE'' of
                    None \<Rightarrow> ''balanced'' | Some v \<Rightarrow> v)"

definition estimate_encryption_time :: "'f runtime \<Rightarrow> int \<Rightarrow> string \<Rightarrow> 'f" where
  "estimate_encryption_time rt file_size performance_mode =
     (let time_per_mb =
            (if performance_mode = ''fast'' then rt_lit rt (1 / 2)
             else if performance_mode = ''balanced'' then rt_lit rt 6
             else if performance_mode = ''secure'' then rt_lit rt 15
             else rt_lit rt 6);
          file_size_mb = rt_div rt (rt_of_int rt file_size) (rt_of_int rt (1024 * 1024));
          base_time = rt_mul rt file_size_mb time_per_mb;
          overhead = rt_add rt (rt_lit rt 2) (rt_mul rt file_size_mb (rt_lit rt (1 / 2)))
      in rt_add rt base_time overhead)"

text \<open>
  A progress record (without its time stamp \<open>updated_at\<close>). The step is a message, or the
  failure message built from an exception.
\<close>

datatype step = Step string | Encryption_failed error

record 'f progress =
  pr_status :: string
  pr_progress_percent :: int
  pr_current_step :: step
  pr_estimated_remaining :: "'f option"
  pr_performance_mode :: string

text \<open>
  What the method reads and writes: the files, \<open>os.environ\<close> and \<open>_progress_storage\<close>.
\<close>

record 'f world =
  w_files :: "string \<rightharpoonup> byte list"
  w_environ :: "string \<rightharpoonup> string"
  w_progress :: "string \<rightharpoonup> 'f progress"

definition update_progress ::
  "'f world \<Rightarrow> string \<Rightarrow> int \<Rightarrow> step \<Rightarrow> string \<Rightarrow> 'f option \<Rightarrow> 'f world" where
  "update_progress w track_id progress current_step performance_mode estimated_remaining =
     w\<lparr>w_progress := (w_progress w)(track_id \<mapsto>
          \<lparr>pr_status = (if progress < 100 then ''processing'' else ''completed''),
           pr_progress_percent = progress,
           pr_current_step = current_step,
           pr_estimated_remaining = estimated_remaining,
           pr_performance_mode = performance_mode\<rparr>)\<rparr>"

definition create_audio_protection_key :: "'f runtime \<Rightarrow> string \<Rightarrow> string \<Rightarrow> string \<Rightarrow> string" where
  "create_audio_protection_key rt user_id track_id master_secret =
     (let combined = user_id @ '':'' @ track_id @ '':'' @ master_secret;
          salt = rt_sha256 rt (rt_encode rt (''audio_protection:'' @ track_id));
          key_bytes = rt_pbkdf2 rt 32 salt 50000 (rt_encode rt combined)
      in rt_b64encode rt key_bytes)"

text \<open>
  The dictionary a call returns (without the wall-clock \<open>encryption_time\<close>).
\<close>

record 'f encrypt_result =
  r_success :: bool
  r_encrypted_path :: "string option"
  r_original_file_sha256 :: "string option"
  r_user_id :: "string option"
  r_track_id :: "string option"
  r_performance_mode :: string
  r_estimated_time :: "'f option"
  r_error :: "error option"

text \<open>
  \<open>ChaoticAudioProtection.encrypt_audio_file\<close>, called without a progress callback.
  \<open>PERFORMANCE_MODE\<close> is the constant of the imported cipher module, \<open>master_secret\<close> the
  attribute of the object, \<open>token_bytes1\<close> and \<open>token_bytes2\<close> the two salts drawn inside
  \<open>encrypt_with_validation\<close>. A missing input file makes \<open>os.path.getsize\<close> raise. The
  \<open>try\<close> block yields the returned dictionary or the exception; the \<open>except\<close> clause turns
  the exception into the failure dictionary, and the \<open>finally\<close> clause deletes the
  environment variable.
\<close>

definition encrypt_audio_file ::
  "'f runtime \<Rightarrow> string \<Rightarrow> string \<Rightarrow> byte list \<Rightarrow> byte list \<Rightarrow> 'f world
     \<Rightarrow> string \<Rightarrow> string \<Rightarrow> string \<Rightarrow> string \<Rightarrow> string
     \<Rightarrow> 'f encrypt_result \<times> 'f world" where
  "encrypt_audio_file rt PERFORMANCE_MODE master_secret token_bytes1 token_bytes2 w
       input_path output_path user_id track_id performance_mode_arg =
     (let performance_mode =
            (if performance_mode_arg \<notin> set [''fast'', ''balanced'', ''secure'']
               then ''balanced'' else performance_mode_arg);
          w1 = w\<lparr>w_environ := (w_environ w)(''CHAOTIC_PERFORMANCE_MODE'' \<mapsto> performance_mode)\<rparr>;
          (tried, w2) =
            (case w_files w1 input_path of
               None \<Rightarrow> (Inl OSError, w1)
             | Some audio_data \<Rightarrow>
                 (let file_size = int (length audio_data);
                      estimated_time = estimate_encryption_time rt file_size performance_mode;
                      wa = update_progress w1 track_id 0 (Step ''Initializing encryption...'')
                             performance_mode (Some estimated_time);
                      wb = update_progress wa track_id 10 (Step ''Calculating file hash...'')
                             performance_mode None;
                      original_sha256 = rt_hexdigest rt (rt_sha256 rt audio_data);
                      wc = update_progress wb track_id 20 (Step ''Generating encryption key...'')
                             performance_mode None;
                      secret_key = create_audio_protection_key rt user_id track_id master_secret;
                      wd = update_progress wc track_id 30 (Step ''Reading audio file...'')
                             performance_mode None;
                      we = update_progress wd track_id 40
                             (Step (''Encrypting with '' @ performance_mode @ '' mode...''))
                             performance_mode None
                  in (case fst (encrypt_with_validation rt PERFORMANCE_MODE token_bytes1
                                  token_bytes2 audio_data secret_key) of
                        Inl e \<Rightarrow> (Inl e, we)
                      | Inr encrypted_data \<Rightarrow>
                          (let wf = update_progress we track_id 95
                                      (Step ''Writing encrypted file...'') performance_mode None;
                               wg = wf\<lparr>w_files := (w_files wf)(output_path \<mapsto> encrypted_data)\<rparr>;
                               wh = update_progress wg track_id 100
                                      (Step ''Encryption completed!'') performance_mode
                                      (Some (rt_of_int rt 0))
                           in (Inr \<lparr>r_success = True, r_encrypted_path = Some output_path,
                                    r_original_file_sha256 = Some original_sha256,
                                    r_user_id = Some user_id, r_track_id = Some track_id,
                                    r_performance_mode = performance_mode,
                                    r_estimated_time = Some estimated_time,
                                    r_error = None\<rparr>, wh)))));
          (returned, w3) =
            (case tried of
               Inr result \<Rightarrow> (result, w2)
             | Inl e \<Rightarrow>
                 (let wx = update_progress w2 track_id 0 (Encryption_failed e)
                             performance_mode None;
                      wy = wx\<lparr>w_progress := (w_progress wx)(track_id \<mapsto>
                              (the (w_progress wx track_id))\<lparr>pr_status := ''failed''\<rparr>)\<rparr>
                  in (\<lparr>r_success = False, r_encrypted_path = None,
                       r_original_file_sha256 = None, r_user_id = None, r_track_id = None,
                       r_performance_mode = performance_mode, r_estimated_time = None,
                       r_error = Some e\<rparr>, wy)))
      in (returned, w3\<lparr>w_environ := (w_environ w3)(''CHAOTIC_PERFORMANCE_MODE'' := None)\<rparr>))"

section \<open>Session manager (\<open>app/core/session_manager.py\<close>)\<close>

record session =
  s_user_id :: string
  s_client_ip :: string
  s_user_agent_hash :: string
  s_device_fingerprint :: "string option"
  s_created_at :: int
  s_last_accessed :: int
  s_expires_at :: int
  s_access_count :: nat
  s_is_active :: bool
  s_revoked_at :: "int option"
  s_revoke_reason :: "string option"

text \<open>
  The module state: \<open>_active_sessions\<close> (a dictionary, in insertion order),
  \<open>_revoked_sessions\<close> and the sets of \<open>_user_sessions\<close> (Python sets, as lists without
  repetitions), and the manager's \<open>last_cleanup\<close>. Every call reads the clock once
  (\<open>now\<close>, in seconds). \<open>session_timeout_minutes\<close> is the configured
  \<open>ACCESS_TOKEN_EXPIRE_MINUTES\<close>, a parameter.
\<close>

record session_state =
  active_sessions :: "(string \<times> session) list"
  revoked_sessions :: "string list"
  user_sessions :: "string \<rightharpoonup> string list"
  sm_last_cleanup :: int

definition max_sessions_per_user :: nat where "max_sessions_per_user = 5"

definition sm_cleanup_interval :: int where "sm_cleanup_interval = 300"

definition revoke_session :: "session_state \<Rightarrow> int \<Rightarrow> string \<Rightarrow> string \<Rightarrow> session_state" where
  "revoke_session st now session_id reason =
     (case map_of (active_sessions st) session_id of
        None \<Rightarrow> st
      | Some session_data \<Rightarrow>
          (let user_id = s_user_id session_data;
               session_data' = session_data\<lparr>s_is_active := False, s_revoked_at := Some now,
                                              s_revoke_reason := Some reason\<rparr>
           in st\<lparr>revoked_sessions := set_add session_id (revoked_sessions st),
                 active_sessions := AList.update session_id session_data' (active_sessions st),
                 user_sessions :=
                   (case user_sessions st user_id of
                      None \<Rightarrow> user_sessions st
                    | Some ids \<Rightarrow> (user_sessions st)(user_id \<mapsto> set_discard session_id ids))\<rparr>))"

text \<open>The test of \<open>_get_user_sessions\<close>: stored, not revoked, active and not expired.\<close>

definition session_counts :: "session_state \<Rightarrow> int \<Rightarrow> string \<Rightarrow> bool" where
  "session_counts st now session_id =
     (case map_of (active_sessions st) session_id of
        None \<Rightarrow> False
      | Some session_data \<Rightarrow>
          session_id \<notin> set (revoked_sessions st) \<and> s_is_active session_data
          \<and> now \<le> s_expires_at session_data)"

definition get_user_sessions ::
  "session_state \<Rightarrow> int \<Rightarrow> string \<Rightarrow> string list \<times> session_state" where
  "get_user_sessions st now user_id =
     (case user_sessions st user_id of
        None \<Rightarrow> ([], st)
      | Some ids \<Rightarrow>
          (let active = filter (session_counts st now) ids
           in (active, st\<lparr>user_sessions := (user_sessions st)(user_id \<mapsto> active)\<rparr>)))"

definition cleanup_expired_sessions :: "session_state \<Rightarrow> int \<Rightarrow> session_state" where
  "cleanup_expired_sessions st now =
     (if now - sm_last_cleanup st < sm_cleanup_interval then st
      else (let expired_sessions =
                  map fst (filter (\<lambda>(session_id, session_data). s_expires_at session_data < now)
                             (active_sessions st));
                st1 = fold (\<lambda>session_id s. revoke_session s now session_id ''expired'')
                        expired_sessions st;
                old_revoked =
                  filter (\<lambda>session_id.
                            case map_of (active_sessions st1) session_id of
                              None \<Rightarrow> False
                            | Some session_data \<Rightarrow>
                                (case s_revoked_at session_data of
                                   None \<Rightarrow> False
                                 | Some revoked_at \<Rightarrow> now - revoked_at > 24 * 3600))
                    (revoked_sessions st1);
                st2 = fold (\<lambda>session_id s.
                              s\<lparr>revoked_sessions := set_discard session_id (revoked_sessions s),
                                active_sessions := AList.delete session_id (active_sessions s)\<rparr>)
                        old_revoked st1
            in st2\<lparr>sm_last_cleanup := now\<rparr>))"

text \<open>
  \<open>min(current_sessions, key=lambda sid: _active_sessions[sid]['created_at'])\<close>: the first
  session of the iteration with the least \<open>created_at\<close>. The sessions iterated over have
  just passed the test \<open>session_id in _active_sessions\<close>.
\<close>

definition created_at_of :: "session_state \<Rightarrow> string \<Rightarrow> int" where
  "created_at_of st session_id =
     (case map_of (active_sessions st) session_id of
        None \<Rightarrow> 0 | Some session_data \<Rightarrow> s_created_at session_data)"

definition oldest_session :: "session_state \<Rightarrow> string list \<Rightarrow> string" where
  "oldest_session st current_sessions = arg_min_list (created_at_of st) current_sessions"

text \<open>
  \<open>create_session\<close>. \<open>session_id\<close> is the SHA-256 digest the function computes over the
  request data, the time, 32 random bytes and the secret; \<open>ua_hash\<close> is
  \<open>hashlib.sha256(user_agent.encode()).hexdigest()[:16]\<close>.
\<close>

definition create_session ::
  "int \<Rightarrow> (string \<Rightarrow> string) \<Rightarrow> session_state \<Rightarrow> int \<Rightarrow> string
     \<Rightarrow> string \<Rightarrow> string \<Rightarrow> string \<Rightarrow> string option \<Rightarrow> string \<times> session_state" where
  "create_session session_timeout_minutes ua_hash st now session_id
       user_id client_ip user_agent device_fingerprint =
     (let st1 = cleanup_expired_sessions st now;
          (current_sessions, st2) = get_user_sessions st1 now user_id;
          st3 = (if length current_sessions \<ge> max_sessions_per_user
                   then revoke_session st2 now (oldest_session st2 current_sessions)
                          ''session_limit_exceeded''
                 else st2);
          session_data = \<lparr>s_user_id = user_id, s_client_ip = client_ip,
                           s_user_agent_hash = ua_hash user_agent,
                           s_device_fingerprint = device_fingerprint,
                           s_created_at = now, s_last_accessed = now,
                           s_expires_at = now + 60 * session_timeout_minutes,
                           s_access_count = 0, s_is_active = True,
                           s_revoked_at = None, s_revoke_reason = None\<rparr>;
          ids = (case user_sessions st3 user_id of None \<Rightarrow> [] | Some ids \<Rightarrow> ids)
      in (session_id,
          st3\<lparr>active_sessions := AList.update session_id session_data (active_sessions st3),
              user_sessions := (user_sessions st3)(user_id \<mapsto> set_add session_id ids)\<rparr>))"

text \<open>\<open>str.split(".")\<close>, and the IP test of \<open>validate_session\<close> for two different addresses.\<close>

fun split_on :: "char \<Rightarrow> string \<Rightarrow> string list" where
  "split_on c [] = [[]]"
| "split_on c (x # xs) =
     (if x = c then [] # split_on c xs
      else (case split_on c xs of
              [] \<Rightarrow> [[x]]
            | w # ws \<Rightarrow> (x # w) # ws))"

definition ip_tolerated :: "string \<Rightarrow> string \<Rightarrow> bool" where
  "ip_tolerated session_ip client_ip =
     (let session_ip_parts = split_on (CHR ''.'') session_ip;
          current_ip_parts = split_on (CHR ''.'') client_ip
      in if length session_ip_parts = 4 \<and> length current_ip_parts = 4
           then take 3 session_ip_parts = take 3 current_ip_parts
         else False)"

text \<open>
  \<open>validate_session\<close>: \<open>None\<close> or the session data, and the state. (The comparison of the
  user-agent hash only writes a log line.)
\<close>

definition validate_session ::
  "int \<Rightarrow> session_state \<Rightarrow> int \<Rightarrow> string \<Rightarrow> string \<Rightarrow> bool
     \<Rightarrow> session option \<times> session_state" where
  "validate_session session_timeout_minutes st now session_id client_ip require_ip_match =
     (case map_of (active_sessions st) session_id of
        None \<Rightarrow> (None, st)
      | Some session_data \<Rightarrow>
          if session_id \<in> set (revoked_sessions st) then (None, st)
          else if now > s_expires_at session_data
            then (None, revoke_session st now session_id ''expired'')
          else if \<not> s_is_active session_data then (None, st)
          else if require_ip_match \<and> s_client_ip session_data \<noteq> client_ip
                  \<and> \<not> ip_tolerated (s_client_ip session_data) client_ip
            then (None, st)
          else (let d1 = session_data\<lparr>s_last_accessed := now,
                                        s_access_count := s_access_count session_data + 1\<rparr>;
                    d2 = (if s_expires_at d1 - now < 30 * 60
                            then d1\<lparr>s_expires_at := now + 60 * session_timeout_minutes\<rparr>
                          else d1)
                in (Some d2,
                    st\<lparr>active_sessions := AList.update session_id d2 (active_sessions st)\<rparr>)))"

definition revoke_user_sessions ::
  "session_state \<Rightarrow> int \<Rightarrow> string \<Rightarrow> string option \<Rightarrow> session_state" where
  "revoke_user_sessions st now user_id except_session =
     (let (user_sessions_now, st1) = get_user_sessions st now user_id
      in fold (\<lambda>session_id s.
                 if Some session_id \<noteq> except_session
                   then revoke_session s now session_id ''user_logout_all'' else s)
           user_sessions_now st1)"

definition get_user_session_count :: "session_state \<Rightarrow> int \<Rightarrow> string \<Rightarrow> nat \<times> session_state" where
  "get_user_session_count st now user_id =
     (let (ids, st1) = get_user_sessions st now user_id in (length ids, st1))"

text \<open>
  The session manager as a transition system. A configuration is the time of the last
  call, the set of session ids generated so far, and the state. Time does not run
  backwards, and a generated session id is new (it is a SHA-256 digest over 32 fresh
  random bytes).
\<close>

definition initial_sessions :: "int \<Rightarrow> session_state" where
  "initial_sessions now =
     \<lparr>active_sessions = [], revoked_sessions = [], user_sessions = Map.empty,
      sm_last_cleanup = now\<rparr>"

inductive sm_step ::
  "int \<Rightarrow> (string \<Rightarrow> string) \<Rightarrow> int \<times> string set \<times> session_state
     \<Rightarrow> int \<times> string set \<times> session_state \<Rightarrow> bool"
  for T :: int and h :: "string \<Rightarrow> string" where
  create:
    "now \<le> now' \<Longrightarrow> sid \<notin> used \<Longrightarrow>
     sm_step T h (now, used, st)
       (now', insert sid used, snd (create_session T h st now' sid user_id ip ua fp))"
| validate:
    "now \<le> now' \<Longrightarrow>
     sm_step T h (now, used, st) (now', used, snd (validate_session T st now' sid ip rim))"
| revoke:
    "now \<le> now' \<Longrightarrow>
     sm_step T h (now, used, st) (now', used, revoke_session st now' sid reason)"
| revoke_user:
    "now \<le> now' \<Longrightarrow>
     sm_step T h (now, used, st) (now', used, revoke_user_sessions st now' user_id except)"
| count:
    "now \<le> now' \<Longrightarrow>
     sm_step T h (now, used, st) (now', used, snd (get_user_session_count st now' user_id))"

definition sm_reachable ::
  "int \<Rightarrow> (string \<Rightarrow> string) \<Rightarrow> int \<times> string set \<times> session_state \<Rightarrow> bool" where
  "sm_reachable T h c = (\<exists>now0. (sm_step T h)\<^sup>*\<^sup>* (now0, {}, initial_sessions now0) c)"

text \<open>
  The sessions of a user that are active, unrevoked and unexpired at a time.
\<close>

definition live_sessions :: "session_state \<Rightarrow> int \<Rightarrow> string \<Rightarrow> string set" where
  "live_sessions st now user_id =
     {sid. session_counts st now sid
           \<and> map_option s_user_id (map_of (active_sessions st) sid) = Some user_id}"

text \<open>
  The invariant of the session manager: a session that counts is in the set of its user;
  the set of a user has no repetitions, holds at most \<open>max_sessions_per_user\<close> sessions
  that count, and holds only unrevoked stored sessions of that user; a revoked id is a
  stored id.
\<close>

definition sm_tracked :: "int \<Rightarrow> session_state \<Rightarrow> bool" where
  "sm_tracked now st =
     (\<forall>sid. session_counts st now sid \<longrightarrow>
        (\<exists>d ids. map_of (active_sessions st) sid = Some d
           \<and> user_sessions st (s_user_id d) = Some ids \<and> sid \<in> set ids))"

definition sm_bounded :: "int \<Rightarrow> session_state \<Rightarrow> bool" where
  "sm_bounded now st =
     (\<forall>u ids. user_sessions st u = Some ids \<longrightarrow>
        distinct ids \<and> length (filter (session_counts st now) ids) \<le> max_sessions_per_user)"

definition sm_owned :: "session_state \<Rightarrow> bool" where
  "sm_owned st =
     (\<forall>u ids sid. user_sessions st u = Some ids \<longrightarrow> sid \<in> set ids \<longrightarrow>
        sid \<notin> set (revoked_sessions st)
        \<and> (\<exists>d. map_of (active_sessions st) sid = Some d \<and> s_user_id d = u))"

definition sm_closed :: "session_state \<Rightarrow> bool" where
  "sm_closed st = (set (revoked_sessions st) \<subseteq> dom (map_of (active_sessions st)))"

definition sm_inv :: "int \<Rightarrow> session_state \<Rightarrow> bool" where
  "sm_inv now st = (sm_tracked now st \<and> sm_bounded now st \<and> sm_owned st \<and> sm_closed st)"

text \<open>
  The body of the purge loop of \<open>_cleanup_expired_sessions\<close>, the last two assignments
  of \<open>create_session\<close>, the invariant of a configuration, and the property of a session
  id that is revoked or no longer stored.
\<close>

definition purge_one :: "string \<Rightarrow> session_state \<Rightarrow> session_state" where
  "purge_one session_id s =
     s\<lparr>revoked_sessions := set_discard session_id (revoked_sessions s),
       active_sessions := AList.delete session_id (active_sessions s)\<rparr>"

definition store_session ::
  "session_state \<Rightarrow> string \<Rightarrow> session \<Rightarrow> session_state" where
  "store_session st3 session_id session_data =
     st3\<lparr>active_sessions := AList.update session_id session_data (active_sessions st3),
         user_sessions := (user_sessions st3)(s_user_id session_data \<mapsto>
            set_add session_id (case user_sessions st3 (s_user_id session_data) of
                                  None \<Rightarrow> [] | Some ids \<Rightarrow> ids))\<rparr>"

definition sm_good :: "int \<times> string set \<times> session_state \<Rightarrow> bool" where
  "sm_good c = (case c of (now, used, st) \<Rightarrow>
     sm_inv now st \<and> dom (map_of (active_sessions st)) \<subseteq> used)"

definition sm_gone :: "session_state \<Rightarrow> string \<Rightarrow> bool" where
  "sm_gone st session_id =
     (map_of (active_sessions st) session_id = None \<or> session_id \<in> set (revoked_sessions st))"

definition sm_distinct :: "session_state \<Rightarrow> bool" where
  "sm_distinct st = distinct (map fst (active_sessions st))"

definition sm_unchanged :: "int \<Rightarrow> session_state \<Rightarrow> session_state \<Rightarrow> bool" where
  "sm_unchanged now st st' =
     (session_counts st' now = session_counts st now
      \<and> (\<forall>y. session_counts st now y \<longrightarrow>
             map_of (active_sessions st') y = map_of (active_sessions st) y))"

definition alice_creates :: "session_state \<Rightarrow> int \<Rightarrow> string \<Rightarrow> session_state" where
  "alice_creates st now sid =
     snd (create_session 30 (\<lambda>ua. ua) st now sid ''alice'' ''10.0.0.1'' ''ua'' None)"

definition five_sessions :: session_state where
  "five_sessions =
     alice_creates (alice_creates (alice_creates (alice_creates (alice_creates
       (initial_sessions 0) 1 ''s1'') 2 ''s2'') 3 ''s3'') 4 ''s4'') 5 ''s5''"

definition alice_session :: "int \<Rightarrow> session" where
  "alice_session now =
     \<lparr>s_user_id = ''alice'', s_client_ip = ''10.0.0.1'', s_user_agent_hash = ''ua'',
      s_device_fingerprint = None, s_created_at = now, s_last_accessed = now,
      s_expires_at = now + 1800, s_access_count = 0, s_is_active = True,
      s_revoked_at = None, s_revoke_reason = None\<rparr>"
section \<open>Theorems\<close>

lemmas status_defs =
  HTTP_401_UNAUTHORIZED_def HTTP_403_FORBIDDEN_def HTTP_404_NOT_FOUND_def
  HTTP_408_REQUEST_TIMEOUT_def HTTP_409_CONFLICT_def HTTP_429_TOO_MANY_REQUESTS_def

subsection \<open>Access matrix\<close>

text \<open>
  C3. For a track id that passes validation: when the metadata lookup yields no track the
  check fails with NotFound (404); otherwise access is granted exactly when the access
  matrix allows the operation (read or stream on a public track or by the owner; write or
  delete by the owner; nothing else), and every denial is Unauthenticated (401) for an
  anonymous caller and Forbidden (403) for an authenticated one.
\<close>

theorem check_track_access_matrix:
  assumes "validate_uuid track_id = Inr vid"
  shows "(db vid = None \<longrightarrow>
            fst (check_track_access validate_uuid db sessions sid now track_id user operation ip)
              = Inl (HTTPException 404))
       \<and> (\<forall>tr. db vid = Some tr \<longrightarrow>
            (access_matrix operation (t_is_public tr) (user_is_owner user (t_owner_id tr)) \<longrightarrow>
               fst (check_track_access validate_uuid db sessions sid now track_id user operation ip)
                 = Inr (tr, sid))
          \<and> (\<not> access_matrix operation (t_is_public tr) (user_is_owner user (t_owner_id tr)) \<longrightarrow>
               check_track_access validate_uuid db sessions sid now track_id user operation ip
                 = (Inl (HTTPException (if user = None then 401 else 403)), sessions)))"
  using assms
  by (auto simp: check_track_access_def access_matrix_def create_secure_access_token_def
        status_defs Let_def)

theorem check_track_access_matrix_witness:
  "(\<lambda>t. Inr t) ''t1'' = (Inr ''t1'' :: error + string)
   \<and> fst (check_track_access (\<lambda>t. Inr t)
            (\<lambda>t. if t = ''t1'' then Some \<lparr>t_is_public = False, t_owner_id = Some ''U''\<rparr> else None)
            [] ''tok'' 0 ''t1'' None ''read'' None) = Inl (HTTPException 401)
   \<and> fst (check_track_access (\<lambda>t. Inr t)
            (\<lambda>t. if t = ''t1'' then Some \<lparr>t_is_public = False, t_owner_id = Some ''U''\<rparr> else None)
            [] ''tok'' 0 ''t1'' (Some \<lparr>u_id = ''V''\<rparr>) ''read'' None) = Inl (HTTPException 403)
   \<and> fst (check_track_access (\<lambda>t. Inr t)
            (\<lambda>t. if t = ''t1'' then Some \<lparr>t_is_public = False, t_owner_id = Some ''U''\<rparr> else None)
            [] ''tok'' 0 ''t1'' (Some \<lparr>u_id = ''U''\<rparr>) ''delete'' None)
       = Inr (\<lparr>t_is_public = False, t_owner_id = Some ''U''\<rparr>, ''tok'')"
  using check_track_access_matrix [of "\<lambda>t. Inr t" "''t1''" "''t1''"
      "\<lambda>t. if t = ''t1'' then Some \<lparr>t_is_public = False, t_owner_id = Some ''U''\<rparr> else None"
      "[]" "''tok''" 0 None "''read''" None]
    check_track_access_matrix [of "\<lambda>t. Inr t" "''t1''" "''t1''"
      "\<lambda>t. if t = ''t1'' then Some \<lparr>t_is_public = False, t_owner_id = Some ''U''\<rparr> else None"
      "[]" "''tok''" 0 "Some \<lparr>u_id = ''V''\<rparr>" "''read''" None]
    check_track_access_matrix [of "\<lambda>t. Inr t" "''t1''" "''t1''"
      "\<lambda>t. if t = ''t1'' then Some \<lparr>t_is_public = False, t_owner_id = Some ''U''\<rparr> else None"
      "[]" "''tok''" 0 "Some \<lparr>u_id = ''U''\<rparr>" "''delete''" None]
  by (simp add: access_matrix_def)

subsection \<open>Signed URL binding\<close>

text \<open>
  C4, as the claim states it, fails: a token minted with a bound IP is accepted from a
  verifier that supplies no caller IP, because the IP comparison is guarded by
  \<open>if ip and ...\<close>.
\<close>

theorem verify_track_token_ip_counterexample:
  "verify_track_token ''k'' 1060
     (create_track_token ''k'' 1000 ''t1'' (Some ''10.0.0.1'') (Some ''bytes=0-99'') 2)
     ''t1'' None (Some ''bytes=0-99'') = Inr ()
   \<and> None \<noteq> Some ''10.0.0.1''"
  by (simp add: verify_track_token_def create_track_token_def jwt_encode_def status_defs)

text \<open>
  C4, amended. For a token minted with a non-empty bound IP \<open>A\<close> and a non-empty Range
  binding \<open>R\<close>: verification succeeds exactly when the token is not past \<open>exp\<close>, the
  verifier supplies the expected track id, a Range header equal to \<open>R\<close>, and a caller IP
  that is either absent (\<open>None\<close> or empty) or equal to \<open>A\<close>. A token past \<open>exp\<close> or signed
  under another key is rejected with 401; a token that decodes is rejected with 403 on a
  track id mismatch, on a supplied IP different from \<open>A\<close>, or on a Range header different
  from \<open>R\<close>.
\<close>

theorem verify_track_token_binding:
  assumes "A \<noteq> []" and "R \<noteq> []"
  shows "(verify_track_token key now (create_track_token key now0 tid (Some A) (Some R) m) tid' ip rh
            = Inr ()
          \<longleftrightarrow> now \<le> now0 + 60 * m \<and> tid' = tid \<and> (\<not> truthy ip \<or> ip = Some A) \<and> rh = Some R)
       \<and> (now0 + 60 * m < now \<longrightarrow>
            verify_track_token key now (create_track_token key now0 tid (Some A) (Some R) m) tid' ip rh
              = Inl (HTTPException 401))
       \<and> (key' \<noteq> key \<longrightarrow>
            verify_track_token key now (create_track_token key' now0 tid (Some A) (Some R) m) tid' ip rh
              = Inl (HTTPException 401))
       \<and> (now \<le> now0 + 60 * m \<and> (tid' \<noteq> tid \<or> (truthy ip \<and> ip \<noteq> Some A) \<or> rh \<noteq> Some R) \<longrightarrow>
            verify_track_token key now (create_track_token key now0 tid (Some A) (Some R) m) tid' ip rh
              = Inl (HTTPException 403))"
  using assms
  by (cases rh; cases ip)
     (auto simp: verify_track_token_def create_track_token_def jwt_encode_def status_defs Let_def)

theorem verify_track_token_binding_witness:
  "''10.0.0.1'' \<noteq> [] \<and> ''bytes=0-99'' \<noteq> []
   \<and> verify_track_token ''k'' 1060
        (create_track_token ''k'' 1000 ''t1'' (Some ''10.0.0.1'') (Some ''bytes=0-99'') 2)
        ''t1'' (Some ''10.0.0.1'') (Some ''bytes=0-99'') = Inr ()
   \<and> verify_track_token ''k'' 1121
        (create_track_token ''k'' 1000 ''t1'' (Some ''10.0.0.1'') (Some ''bytes=0-99'') 2)
        ''t1'' (Some ''10.0.0.1'') (Some ''bytes=0-99'') = Inl (HTTPException 401)
   \<and> verify_track_token ''k'' 1060
        (create_track_token ''k'' 1000 ''t1'' (Some ''10.0.0.1'') (Some ''bytes=0-99'') 2)
        ''t1'' (Some ''10.0.0.2'') (Some ''bytes=0-99'') = Inl (HTTPException 403)"
  using verify_track_token_binding [of "''10.0.0.1''" "''bytes=0-99''" "''k''" 1060 1000 "''t1''" 2
      "''t1''" "Some ''10.0.0.1''" "Some ''bytes=0-99''" "''k''"]
    verify_track_token_binding [of "''10.0.0.1''" "''bytes=0-99''" "''k''" 1121 1000 "''t1''" 2
      "''t1''" "Some ''10.0.0.1''" "Some ''bytes=0-99''" "''k''"]
    verify_track_token_binding [of "''10.0.0.1''" "''bytes=0-99''" "''k''" 1060 1000 "''t1''" 2
      "''t1''" "Some ''10.0.0.2''" "Some ''bytes=0-99''" "''k''"]
  by simp

subsection \<open>Keystream: chunking\<close>

declare chunk_loop.simps [simp del]

lemma chunk_bytes_length: "length (snd (chunk_bytes rt m r e n x)) = n"
  by (induction n arbitrary: x) (simp_all add: Let_def case_prod_beta)

lemma chunk_bytes_add:
  "chunk_bytes rt m r e (a + b) x =
     (fst (chunk_bytes rt m r e b (fst (chunk_bytes rt m r e a x))),
      snd (chunk_bytes rt m r e a x) @ snd (chunk_bytes rt m r e b (fst (chunk_bytes rt m r e a x))))"
  by (induction a arbitrary: x) (simp_all add: Let_def case_prod_beta)

lemma chunk_loop_unchunked:
  "0 < cs \<Longrightarrow> chunk_loop rt m r e cs len start x ks
     = ks @ snd (chunk_bytes rt m r e (len - start) x)"
proof (induction rt m r e cs len start x ks rule: chunk_loop.induct)
  case (1 rt m r e cs len start x ks)
  show ?case
  proof (cases "len \<le> start")
    case True
    then show ?thesis by (simp add: chunk_loop.simps)
  next
    case False
    define k where "k = min cs (len - start)"
    obtain x' cd where cb: "chunk_bytes rt m r e k x = (x', cd)"
      by (cases "chunk_bytes rt m r e k x")
    have split: "len - start = k + (len - (start + cs))"
      using False by (auto simp: k_def min_def)
    have IH: "chunk_loop rt m r e cs len (start + cs) x' (ks @ cd)
               = (ks @ cd) @ snd (chunk_bytes rt m r e (len - (start + cs)) x')"
      using "1.IH"[OF _ k_def cb[symmetric] refl] False "1.prems" by simp
    have "chunk_loop rt m r e cs len start x ks
            = chunk_loop rt m r e cs len (start + cs) x' (ks @ cd)"
      using False "1.prems" cb by (subst chunk_loop.simps) (simp add: k_def[symmetric])
    also have "\<dots> = ks @ snd (chunk_bytes rt m r e (len - start) x)"
      unfolding IH by (subst split) (simp add: chunk_bytes_add cb)
    finally show ?thesis .
  qed
qed

lemma CHUNK_SIZE_pos: "0 < CHUNK_SIZE m"
  by (simp add: CHUNK_SIZE_def)

lemma generate_unchunked:
  "generate_keystream_cml rt m x r e n = keystream_unchunked rt m x r e n"
  by (simp add: generate_keystream_cml_def keystream_unchunked_def chunk_loop_unchunked
        CHUNK_SIZE_pos)

lemma unchunked_length: "length (keystream_unchunked rt m x r e n) = n"
  by (simp add: keystream_unchunked_def chunk_bytes_length)

lemma generate_length: "length (generate_keystream_cml rt m x r e n) = n"
  by (simp add: generate_unchunked unchunked_length)

lemma unchunked_prefix:
  "n \<le> n' \<Longrightarrow> take n (keystream_unchunked rt m x r e n') = keystream_unchunked rt m x r e n"
proof -
  assume "n \<le> n'"
  then obtain d where "n' = n + d" by (auto simp: le_iff_add)
  then show ?thesis
    by (simp add: keystream_unchunked_def chunk_bytes_add chunk_bytes_length)
qed

text \<open>
  C8. For every lattice state \<open>(x, r, epsilon)\<close> and every length \<open>n\<close>, the chunked
  generation loop produces the same bytes for any two positive chunk sizes; the
  function as written (chunk size 8192 or 2048) agrees with every positive chunk size, in
  particular with one chunk of \<open>n\<close> bytes; it returns exactly \<open>n\<close> bytes; and the
  keystream of length \<open>n\<close> is the prefix of every longer keystream from the same state.
\<close>

theorem chunking_preserves_keystream:
  assumes "0 < cs" and "0 < cs'"
  shows "keystream_chunked rt m cs x r e n = keystream_chunked rt m cs' x r e n
       \<and> generate_keystream_cml rt m x r e n = keystream_chunked rt m cs x r e n
       \<and> (0 < n \<longrightarrow> generate_keystream_cml rt m x r e n = keystream_chunked rt m n x r e n)
       \<and> length (generate_keystream_cml rt m x r e n) = n
       \<and> (\<forall>n'. n \<le> n' \<longrightarrow>
             take n (generate_keystream_cml rt m x r e n') = generate_keystream_cml rt m x r e n)"
  using assms
  by (simp add: keystream_chunked_def chunk_loop_unchunked generate_unchunked
        unchunked_prefix unchunked_length) (simp add: keystream_unchunked_def)

theorem chunking_preserves_keystream_witness:
  "(0::nat) < 2 \<and> (0::nat) < 8192
   \<and> keystream_chunked test_runtime ''fast'' 2 [1 / 2] [39 / 10] (1 / 5) 5
       = keystream_chunked test_runtime ''fast'' 8192 [1 / 2] [39 / 10] (1 / 5) 5
   \<and> generate_keystream_cml test_runtime ''fast'' [1 / 2] [39 / 10] (1 / 5) 5
       = keystream_chunked test_runtime ''fast'' 2 [1 / 2] [39 / 10] (1 / 5) 5
   \<and> length (generate_keystream_cml test_runtime ''fast'' [1 / 2] [39 / 10] (1 / 5) 5) = 5
   \<and> take 5 (generate_keystream_cml test_runtime ''fast'' [1 / 2] [39 / 10] (1 / 5) 7)
       = generate_keystream_cml test_runtime ''fast'' [1 / 2] [39 / 10] (1 / 5) 5"
proof -
  have pos: "(0::nat) < 2" "(0::nat) < 8192" and le: "(5::nat) \<le> 7" by simp_all
  show ?thesis
    using chunking_preserves_keystream [OF pos, of test_runtime "''fast''" "[1 / 2]" "[39 / 10]"
        "1 / 5" 5] pos le
    by blast
qed

subsection \<open>Authenticated cipher: round trip\<close>

lemma xor_keystream_cancel:
  "length ks = length (data :: byte list) \<Longrightarrow> map2 (XOR) (map2 (XOR) data ks) ks = data"
proof (induction data arbitrary: ks)
  case Nil
  then show ?case by simp
next
  case (Cons d data)
  then obtain k ks' where "ks = k # ks'" by (cases ks) auto
  with Cons show ?case by (simp add: xor.assoc)
qed

lemma initialize_cml_salt_None:
  "snd (snd (snd (initialize_cml rt m tb key None))) = tb"
  by (simp add: initialize_cml_def Let_def)

lemma encrypt_parts:
  assumes "length token_bytes = 32" and "\<forall>k msg. length (rt_hmac rt k msg) = 32"
  shows "\<exists>mac ct. encrypt rt m token_bytes data key = token_bytes @ mac @ ct
           \<and> length mac = 32 \<and> length ct = length data
           \<and> mac = rt_hmac rt (hmac_key_of rt m token_bytes key) (token_bytes @ ct)"
  using assms
  by (simp add: encrypt_def Let_def case_prod_beta generate_length initialize_cml_salt_None)

lemma decrypt_encrypt:
  assumes "length token_bytes = 32" and "\<forall>k msg. length (rt_hmac rt k msg) = 32"
  shows "decrypt rt m (encrypt rt m token_bytes data key) key = Inr data"
proof -
  obtain x r e s where init: "initialize_cml rt m token_bytes key None = (x, r, e, s)"
    by (cases "initialize_cml rt m token_bytes key None") auto
  have s: "s = token_bytes" using init by (simp add: initialize_cml_def Let_def)
  define ks where "ks = generate_keystream_cml rt m x r e (length data)"
  define ct where "ct = map2 (XOR) data ks"
  define mac where "mac = rt_hmac rt (hmac_key_of rt m token_bytes key) (token_bytes @ ct)"
  have lks: "length ks = length data" by (simp add: ks_def generate_length)
  have lct: "length ct = length data" by (simp add: ct_def lks)
  have lmac: "length mac = 32" using assms(2) by (simp add: mac_def)
  have enc: "encrypt rt m token_bytes data key = token_bytes @ mac @ ct"
    by (simp add: encrypt_def init s ks_def ct_def mac_def Let_def)
  have init': "initialize_cml rt m [] key (Some token_bytes) = (x, r, e, s)"
    using init by (simp add: initialize_cml_def)
  have parts: "slice (token_bytes @ mac @ ct) 0 32 = token_bytes"
    "slice (token_bytes @ mac @ ct) 32 64 = mac" "drop 64 (token_bytes @ mac @ ct) = ct"
    using assms(1) lmac by (simp_all add: slice_def)
  have plain: "map2 (XOR) ct (generate_keystream_cml rt m x r e (length data)) = data"
    using lks by (simp add: ks_def[symmetric] ct_def xor_keystream_cancel)
  show ?thesis
    unfolding enc decrypt_def parts
    using assms(1) lmac lct
    by (simp add: Let_def init' mac_def[symmetric] plain)
qed

text \<open>
  C1. For every performance mode, every password and every plaintext, with a salt of 32
  bytes (what \<open>secrets.token_bytes(32)\<close> returns) and a MAC of 32 bytes (what HMAC-SHA256
  returns): decrypting the blob that encryption produced, under the same password, gives
  back the plaintext. When the password satisfies the strength rule and the plaintext has
  at most 50 MiB, the validating entry points succeed and round-trip too.
\<close>

theorem encrypt_decrypt_roundtrip:
  assumes "length token_bytes = 32" and "\<forall>k msg. length (rt_hmac rt k msg) = 32"
  shows "decrypt rt m (encrypt rt m token_bytes data key) key = Inr data
       \<and> (validate_key_strength rt key \<and> length data \<le> 50 * 1024 * 1024 \<longrightarrow>
            fst (encrypt_with_validation rt m token_bytes1 token_bytes data key)
              = Inr (encrypt rt m token_bytes data key)
          \<and> decrypt_with_validation rt m (encrypt rt m token_bytes data key) key = Inr data)"
  using decrypt_encrypt[OF assms]
  by (simp add: encrypt_with_validation_def decrypt_with_validation_def Let_def case_prod_beta)

theorem encrypt_decrypt_roundtrip_witness:
  "length (replicate 32 (7 :: byte)) = 32
   \<and> (\<forall>k msg. length (rt_hmac test_runtime k msg) = 32)
   \<and> validate_key_strength test_runtime ''Str0ng-Pass!''
   \<and> length (ascii ''hello'') \<le> 50 * 1024 * 1024
   \<and> decrypt test_runtime ''balanced''
        (encrypt test_runtime ''balanced'' (replicate 32 7) (ascii ''hello'') ''Str0ng-Pass!'')
        ''Str0ng-Pass!'' = Inr (ascii ''hello'')
   \<and> decrypt_with_validation test_runtime ''balanced''
        (encrypt test_runtime ''balanced'' (replicate 32 7) (ascii ''hello'') ''Str0ng-Pass!'')
        ''Str0ng-Pass!'' = Inr (ascii ''hello'')"
proof -
  have h1: "length (replicate 32 (7 :: byte)) = 32" by simp
  have h2: "\<forall>k msg. length (rt_hmac test_runtime k msg) = 32" by (simp add: test_runtime_def)
  have h3: "validate_key_strength test_runtime ''Str0ng-Pass!''"
    by (simp add: validate_key_strength_def test_runtime_def)
  have h4: "length (ascii ''hello'') \<le> 50 * 1024 * 1024" by (simp add: ascii_def)
  show ?thesis
    using encrypt_decrypt_roundtrip[OF h1 h2, of "''balanced''" "ascii ''hello''" "''Str0ng-Pass!''"
        "replicate 32 7"] h1 h2 h3 h4
    by blast
qed

subsection \<open>Authenticated cipher: tampering\<close>

lemma decrypt_mac_mismatch:
  assumes "64 \<le> length blob" and "expected_mac_of rt m blob key \<noteq> slice blob 32 64"
    and "rt_pbkdf2 rt' = rt_pbkdf2 rt" and "rt_hmac rt' = rt_hmac rt"
    and "rt_encode rt' = rt_encode rt"
  shows "decrypt rt' m blob key = Inl integrity_failure"
  using assms
  by (simp add: decrypt_def expected_mac_of_def hmac_key_of_def Let_def)

text \<open>
  C2. Let \<open>B\<close> be a blob produced by encryption under a password, and let \<open>B'\<close> differ
  from \<open>B\<close> in the single byte at position \<open>i\<close>, anywhere in the salt, the MAC or the
  ciphertext. Assume of the primitives that HMAC-SHA256, keyed by PBKDF2 as the cipher
  keys it, gives the message \<open>salt || ciphertext\<close> of \<open>B\<close> a tag that no message differing
  from it in one byte receives (the MAC has no collision among the single-byte
  variants). Then decryption of \<open>B'\<close> under that password fails with the integrity
  error: the blob is split so that every byte of the salt and of the ciphertext is under
  the MAC, and every byte of the MAC is compared. The failure is decided by the key
  derivation and the MAC alone: it is the same on every runtime that agrees on these,
  whatever its lattice arithmetic, so no keystream enters it. A failure is an error value
  and carries no plaintext.
\<close>

theorem decrypt_rejects_tampered_blob:
  assumes salt: "length token_bytes = 32"
    and hmac: "\<forall>k msg. length (rt_hmac rt k msg) = 32"
    and no_collision: "mac_separates_single_bytes rt m key
          (token_bytes @ drop 64 (encrypt rt m token_bytes data key))"
    and i: "i < length (encrypt rt m token_bytes data key)"
    and b: "b \<noteq> encrypt rt m token_bytes data key ! i"
    and same: "rt_pbkdf2 rt' = rt_pbkdf2 rt" "rt_hmac rt' = rt_hmac rt"
      "rt_encode rt' = rt_encode rt"
  shows "decrypt rt m ((encrypt rt m token_bytes data key)[i := b]) key = Inl integrity_failure
       \<and> decrypt rt' m ((encrypt rt m token_bytes data key)[i := b]) key = Inl integrity_failure"
proof -
  obtain mac ct where enc: "encrypt rt m token_bytes data key = token_bytes @ mac @ ct"
    and lmac: "length mac = 32" and lct: "length ct = length data"
    and mac: "mac = rt_hmac rt (hmac_key_of rt m token_bytes key) (token_bytes @ ct)"
    using encrypt_parts[OF salt hmac] by blast
  let ?B = "token_bytes @ mac @ ct"
  let ?msg = "token_bytes @ ct"
  have drop64: "drop 64 (encrypt rt m token_bytes data key) = ct"
    using salt lmac by (simp add: enc)
  have sep: "rt_hmac rt (hmac_key_of rt m (take 32 (?msg[j := c])) key) (?msg[j := c]) \<noteq> mac"
    if "j < length ?msg" "c \<noteq> ?msg ! j" for j c
    using no_collision that salt unfolding drop64 mac_separates_single_bytes_def mac hmac_key_of_def
    by simp
  have len: "64 \<le> length (?B[i := b])" using salt lmac by simp
  have mismatch: "expected_mac_of rt m (?B[i := b]) key \<noteq> slice (?B[i := b]) 32 64"
  proof -
    consider (in_salt) "i < 32" | (in_mac) "32 \<le> i" "i < 64" | (in_ct) "64 \<le> i"
      by linarith
    then show ?thesis
    proof cases
      case in_salt
      have upd: "?B[i := b] = token_bytes[i := b] @ mac @ ct"
        using in_salt salt by (simp add: list_update_append)
      have msg: "?msg[i := b] = token_bytes[i := b] @ ct"
        using in_salt salt by (simp add: list_update_append)
      have "b \<noteq> ?msg ! i" using b in_salt salt by (simp add: enc nth_append)
      from sep[OF _ this] in_salt salt
      have "rt_hmac rt (hmac_key_of rt m (token_bytes[i := b]) key) (token_bytes[i := b] @ ct) \<noteq> mac"
        by (simp add: msg)
      moreover have "expected_mac_of rt m (?B[i := b]) key
          = rt_hmac rt (hmac_key_of rt m (token_bytes[i := b]) key) (token_bytes[i := b] @ ct)"
        unfolding upd using salt lmac by (simp add: expected_mac_of_def slice_def Let_def)
      moreover have "slice (?B[i := b]) 32 64 = mac"
        unfolding upd using salt lmac by (simp add: slice_def)
      ultimately show ?thesis by simp
    next
      case in_mac
      then have i': "i - 32 < 32" by auto
      have upd: "?B[i := b] = token_bytes @ mac[i - 32 := b] @ ct"
        using in_mac i' salt lmac by (simp add: list_update_append)
      have "expected_mac_of rt m (?B[i := b]) key = mac"
        unfolding upd using salt lmac mac by (simp add: expected_mac_of_def slice_def)
      moreover have "slice (?B[i := b]) 32 64 = mac[i - 32 := b]"
        unfolding upd using salt lmac by (simp add: slice_def)
      moreover have "mac[i - 32 := b] \<noteq> mac"
      proof
        assume "mac[i - 32 := b] = mac"
        then have "mac[i - 32 := b] ! (i - 32) = mac ! (i - 32)" by simp
        then have "b = mac ! (i - 32)" using i' lmac by simp
        moreover have "?B ! i = mac ! (i - 32)"
          using in_mac i' salt lmac by (simp add: nth_append)
        ultimately show False using b by (simp add: enc)
      qed
      ultimately show ?thesis by simp
    next
      case in_ct
      have ict: "i - 64 < length ct" using i in_ct salt lmac by (simp add: enc)
      have ar: "\<not> i < 32" "\<not> i - 32 < 32" "i - 32 - 32 = i - 64" using in_ct by auto
      have upd: "?B[i := b] = token_bytes @ mac @ ct[i - 64 := b]"
        using ar salt lmac by (simp add: list_update_append)
      have msg: "?msg[i - 32 := b] = token_bytes @ ct[i - 64 := b]"
        using ar salt by (simp add: list_update_append)
      have "?B ! i = ct ! (i - 64)" using ar salt lmac by (simp add: nth_append)
      moreover have "?msg ! (i - 32) = ct ! (i - 64)" using ar salt by (simp add: nth_append)
      ultimately have "b \<noteq> ?msg ! (i - 32)" using b by (simp add: enc)
      moreover have "i - 32 < length ?msg" using ict in_ct salt by simp
      ultimately
      have "rt_hmac rt (hmac_key_of rt m token_bytes key) (token_bytes @ ct[i - 64 := b]) \<noteq> mac"
        using sep[of "i - 32" b] salt by (simp add: msg)
      moreover have "expected_mac_of rt m (?B[i := b]) key
          = rt_hmac rt (hmac_key_of rt m token_bytes key) (token_bytes @ ct[i - 64 := b])"
        unfolding upd using salt lmac by (simp add: expected_mac_of_def slice_def Let_def)
      moreover have "slice (?B[i := b]) 32 64 = mac"
        unfolding upd using salt lmac by (simp add: slice_def)
      ultimately show ?thesis by simp
    qed
  qed
  show ?thesis
    unfolding enc
    using decrypt_mac_mismatch[OF len mismatch same]
      decrypt_mac_mismatch[OF len mismatch refl refl refl] by simp
qed

lemma test_hmac_len: "\<forall>k msg. length (rt_hmac test_runtime k msg) = 32"
  by (simp add: test_runtime_def)

lemma sum_list_update_byte:
  "j < length (msg :: byte list) \<Longrightarrow> c \<noteq> msg ! j \<Longrightarrow> sum_list (msg[j := c]) \<noteq> sum_list msg"
proof (induction msg arbitrary: j)
  case Nil
  then show ?case by simp
next
  case (Cons a msg)
  then show ?case by (cases j) auto
qed

lemma mac_test_runtime_separates: "mac_separates_single_bytes mac_test_runtime m key msg"
  by (simp add: mac_separates_single_bytes_def mac_test_runtime_def sum_list_update_byte)

theorem decrypt_rejects_tampered_blob_witness:
  "length (replicate 32 (7 :: byte)) = 32
   \<and> (\<forall>k msg. length (rt_hmac mac_test_runtime k msg) = 32)
   \<and> mac_separates_single_bytes mac_test_runtime ''balanced'' ''Str0ng-Pass!''
        (replicate 32 7 @ drop 64 mac_test_blob)
   \<and> 5 < length mac_test_blob \<and> 40 < length mac_test_blob \<and> 64 < length mac_test_blob
   \<and> mac_test_blob ! 5 + 1 \<noteq> mac_test_blob ! 5
   \<and> mac_test_blob ! 40 + 1 \<noteq> mac_test_blob ! 40
   \<and> mac_test_blob ! 64 + 1 \<noteq> mac_test_blob ! 64
   \<and> decrypt mac_test_runtime ''balanced'' (mac_test_blob[5 := mac_test_blob ! 5 + 1])
        ''Str0ng-Pass!'' = Inl integrity_failure
   \<and> decrypt mac_test_runtime ''balanced'' (mac_test_blob[40 := mac_test_blob ! 40 + 1])
        ''Str0ng-Pass!'' = Inl integrity_failure
   \<and> decrypt mac_test_runtime ''balanced'' (mac_test_blob[64 := mac_test_blob ! 64 + 1])
        ''Str0ng-Pass!'' = Inl integrity_failure"
proof -
  let ?tb = "replicate 32 (7 :: byte)"
  have h1: "length ?tb = 32" by simp
  have h2: "\<forall>k msg. length (rt_hmac mac_test_runtime k msg) = 32"
    by (simp add: mac_test_runtime_def)
  have h3: "mac_separates_single_bytes mac_test_runtime ''balanced'' ''Str0ng-Pass!''
        (?tb @ drop 64 mac_test_blob)"
    by (rule mac_test_runtime_separates)
  obtain mac ct where enc: "mac_test_blob = ?tb @ mac @ ct"
    and lmac: "length mac = 32" and lct: "length ct = length (ascii ''hello'')"
    using encrypt_parts[OF h1 h2, of "''balanced''" "ascii ''hello''" "''Str0ng-Pass!''"]
    unfolding mac_test_blob_def by blast
  have len: "length mac_test_blob = 69" by (simp add: enc lmac lct ascii_def)
  have idx: "5 < length mac_test_blob" "40 < length mac_test_blob" "64 < length mac_test_blob"
    using len by simp_all
  have neq: "mac_test_blob ! 5 + 1 \<noteq> mac_test_blob ! 5"
    "mac_test_blob ! 40 + 1 \<noteq> mac_test_blob ! 40"
    "mac_test_blob ! 64 + 1 \<noteq> mac_test_blob ! 64"
    by simp_all
  note rej = decrypt_rejects_tampered_blob[OF h1 h2 h3[unfolded mac_test_blob_def]
      _ _ refl refl refl, folded mac_test_blob_def]
  have r5: "decrypt mac_test_runtime ''balanced'' (mac_test_blob[5 := mac_test_blob ! 5 + 1])
        ''Str0ng-Pass!'' = Inl integrity_failure"
    using rej[OF idx(1) neq(1)] by simp
  have r40: "decrypt mac_test_runtime ''balanced'' (mac_test_blob[40 := mac_test_blob ! 40 + 1])
        ''Str0ng-Pass!'' = Inl integrity_failure"
    using rej[OF idx(2) neq(2)] by simp
  have r64: "decrypt mac_test_runtime ''balanced'' (mac_test_blob[64 := mac_test_blob ! 64 + 1])
        ''Str0ng-Pass!'' = Inl integrity_failure"
    using rej[OF idx(3) neq(3)] by simp
  show ?thesis using h1 h2 h3 idx neq r5 r40 r64 by blast
qed

subsection \<open>Processing locks and validated encryption, evaluated\<close>

lemmas lock_defs =
  acquire_processing_lock_def acquire_file_lock_def cleanup_expired_locks_def
  release_processing_lock_def get_user_processing_count_def is_lock_expired_def
  raise_HTTPException_def max_concurrent_per_user_def cleanup_interval_def
  lock_timeout_minutes_def lock_of_def set_add_def set_discard_def

text \<open>
  C5, evaluated. With a live record for the key \<open>T1:processing\<close> held by \<open>alice\<close>, a second
  acquisition of the same key by \<open>alice\<close>, and one by \<open>bob\<close>, reach a
  \<open>raise HTTPException(status_code=status.HTTP_409_CONFLICT, ...)\<close> whose names are unbound
  local variables: the call raises \<open>UnboundLocalError\<close>, not the Conflict (409) of the
  claim. The other two outcomes are as the claim says: a user who holds three locks gets
  TooManyRequests (429), and an expired record of another user is removed and the
  acquisition proceeds.
\<close>

theorem acquire_processing_lock_conflict_unbound:
  "fst (acquire_processing_lock one_lock_state 100 ''p2'' ''T1'' ''alice'' ''processing'')
     = Inl (UnboundLocalError ''HTTPException'')
   \<and> fst (acquire_processing_lock one_lock_state 100 ''p2'' ''T1'' ''bob'' ''processing'')
     = Inl (UnboundLocalError ''HTTPException'')
   \<and> fst (acquire_processing_lock three_locks_state 100 ''p2'' ''T4'' ''alice'' ''processing'')
     = Inl (HTTPException 429)
   \<and> acquire_processing_lock expired_lock_state 2000 ''p2'' ''T1'' ''bob'' ''processing''
     = (Inr \<lparr>l_track_id = ''T1'', l_user_id = ''bob'', l_operation = ''processing'',
             l_created_at = 2000, l_expires_at = 3800, l_process_id = ''p2''\<rparr>,
        \<lparr>processing_locks =
            [(''T1:processing'',
              \<lparr>l_track_id = ''T1'', l_user_id = ''bob'', l_operation = ''processing'',
               l_created_at = 2000, l_expires_at = 3800, l_process_id = ''p2''\<rparr>)],
         file_locks = [(''T1'', True)],
         user_processing = [(''bob'', [''T1''])],
         last_cleanup = 1900\<rparr>)"
  by (simp add: lock_defs Let_def one_lock_state_def three_locks_state_def expired_lock_state_def
        status_defs)

text \<open>
  C9, evaluated. \<open>encrypt_with_validation\<close> draws two salts. The blob never depends on the
  first draw, from which the state handed to the chaos check is derived, and the warnings
  of the check never depend on the second draw, from which the keystream is generated
  and which is stored in the blob. For the draws \<open>00..00\<close> and \<open>01..01\<close> the checked state
  has salt \<open>00..00\<close> and the blob holds the salt \<open>01..01\<close>: the state that is checked is not
  the state the ciphertext is produced with.
\<close>

theorem encrypt_with_validation_checks_other_state:
  "fst (encrypt_with_validation rt m token_bytes1 token_bytes2 data key)
     = fst (encrypt_with_validation rt m token_bytes1' token_bytes2 data key)
   \<and> snd (encrypt_with_validation rt m token_bytes1 token_bytes2 data key)
     = snd (encrypt_with_validation rt m token_bytes1 token_bytes2' data key)
   \<and> (\<exists>blob. fst (encrypt_with_validation test_runtime ''balanced'' (replicate 32 0)
                    (replicate 32 1) (ascii ''hello'') ''Str0ng-Pass!'') = Inr blob
          \<and> slice blob 0 32 = replicate 32 1)
   \<and> snd (snd (snd (initialize_cml test_runtime ''balanced'' (replicate 32 0) ''Str0ng-Pass!'' None)))
     = replicate 32 0
   \<and> replicate 32 (0 :: byte) \<noteq> replicate 32 1"
proof -
  have strong: "validate_key_strength test_runtime ''Str0ng-Pass!''"
    by (simp add: validate_key_strength_def test_runtime_def)
  have small: "length (ascii ''hello'') \<le> 50 * 1024 * 1024" by (simp add: ascii_def)
  have h1: "length (replicate 32 (1 :: byte)) = 32" by simp
  obtain mac ct where enc:
    "encrypt test_runtime ''balanced'' (replicate 32 1) (ascii ''hello'') ''Str0ng-Pass!''
       = replicate 32 1 @ mac @ ct"
    using encrypt_parts[OF h1 test_hmac_len] by blast
  have "fst (encrypt_with_validation test_runtime ''balanced'' (replicate 32 0)
               (replicate 32 1) (ascii ''hello'') ''Str0ng-Pass!'')
          = Inr (replicate 32 1 @ mac @ ct)"
    using strong small by (simp add: encrypt_with_validation_def case_prod_beta Let_def enc)
  moreover have "slice (replicate 32 (1 :: byte) @ mac @ ct) 0 32 = replicate 32 1"
    by (simp add: slice_def)
  ultimately show ?thesis
    by (simp add: initialize_cml_salt_None)
       (simp add: encrypt_with_validation_def case_prod_beta Let_def)
qed

subsection \<open>HLS sweep\<close>

lemma kept_file_survives:
  "(p, m) \<in> set (all_files parent d) \<Longrightarrow>
   \<not> removes_file fails now age (butlast p) (last p, m) \<Longrightarrow>
   \<exists>d'. cleanup_dir fails now age parent d = Some d' \<and> (p, m) \<in> set (all_files parent d')"
proof (induction fails now age parent d rule: cleanup_dir.induct)
  case (1 fails now age parent name files dirs)
  let ?dp = "parent @ [name]"
  let ?dirs' = "concat (map (\<lambda>d. case cleanup_dir fails now age ?dp d of
                                      None \<Rightarrow> [] | Some d' \<Rightarrow> [d']) dirs)"
  let ?files' = "filter (\<lambda>f. \<not> removes_file fails now age ?dp f) files"
  from "1.prems"(1) consider
      (in_files) f where "(f, m) \<in> set files" "p = ?dp @ [f]"
    | (in_sub) c where "c \<in> set dirs" "(p, m) \<in> set (all_files ?dp c)"
    by auto
  then have "(?files' \<noteq> [] \<or> ?dirs' \<noteq> [])
      \<and> (p, m) \<in> set (all_files parent (Dir name ?files' ?dirs'))"
  proof cases
    case in_files
    then have "(f, m) \<in> set ?files'" using "1.prems"(2) by (simp add: butlast_append)
    then show ?thesis using in_files by (force simp: filter_empty_conv)
  next
    case in_sub
    note sub = in_sub
    from "1.IH"[OF refl sub(1) sub(2) "1.prems"(2)]
    obtain c' where c': "cleanup_dir fails now age ?dp c = Some c'"
      "(p, m) \<in> set (all_files ?dp c')" by blast
    then have mem: "c' \<in> set ?dirs'" using sub(1) by force
    have "D \<noteq> [] \<and> (p, m) \<in> set (all_files parent (Dir name F D))"
      if "c' \<in> set D" for D :: "dir list" and F
      using that c'(2) by auto
    from this[OF mem] show ?thesis by blast
  qed
  then show ?case by (auto simp: Let_def)
qed

lemma cleanup_dir_files_subset:
  "cleanup_dir fails now age parent d = Some d' \<Longrightarrow>
   set (all_files parent d') \<subseteq> set (all_files parent d)"
proof (induction fails now age parent d arbitrary: d' rule: cleanup_dir.induct)
  case (1 fails now age parent name files dirs)
  let ?dp = "parent @ [name]"
  let ?dirs' = "concat (map (\<lambda>d. case cleanup_dir fails now age ?dp d of
                                      None \<Rightarrow> [] | Some d' \<Rightarrow> [d']) dirs)"
  let ?files' = "filter (\<lambda>f. \<not> removes_file fails now age ?dp f) files"
  have d': "d' = Dir name ?files' ?dirs'"
    using "1.prems" by (auto simp: Let_def split: if_splits)
  have "set (all_files ?dp c') \<subseteq> set (all_files parent (Dir name files dirs))"
    if "c' \<in> set ?dirs'" for c'
  proof -
    from that obtain c where c: "c \<in> set dirs" "cleanup_dir fails now age ?dp c = Some c'"
      by (auto split: option.splits)
    from "1.IH"[OF refl c] c(1) show ?thesis by auto
  qed
  then show ?case unfolding d' by auto
qed

lemma removed_dir_was_emptied:
  assumes "cleanup_dir fails now age parent d = None"
  shows "parent @ [d_name d] \<noteq> [HLS_DIRECTORY] \<and> \<not> fails (parent @ [d_name d])
       \<and> (\<forall>(p, m) \<in> set (all_files parent d). removes_file fails now age (butlast p) (last p, m))"
proof -
  have "parent @ [d_name d] \<noteq> [HLS_DIRECTORY] \<and> \<not> fails (parent @ [d_name d])"
    using assms by (cases d) (auto simp: Let_def split: if_splits)
  moreover have "removes_file fails now age (butlast p) (last p, m)"
    if "(p, m) \<in> set (all_files parent d)" for p m
    using kept_file_survives[OF that, of fails now age] assms by auto
  ultimately show ?thesis by auto
qed

lemma all_files_path_nonempty: "(p, m) \<in> set (all_files parent d) \<Longrightarrow> p \<noteq> []"
  by (induction parent d rule: all_files.induct) auto

lemma removed_dir_emptied_first:
  assumes "cleanup_dir fails now age parent d = None"
  shows "\<not> fails (parent @ [d_name d])
       \<and> (\<forall>c \<in> set (d_dirs d). cleanup_dir fails now age (parent @ [d_name d]) c = None)
       \<and> (\<forall>f \<in> set (d_files d). removes_file fails now age (parent @ [d_name d]) f)"
proof (cases d)
  case (Dir name files dirs)
  let ?dp = "parent @ [name]"
  from assms Dir have none:
    "filter (\<lambda>f. \<not> removes_file fails now age ?dp f) files = []"
    "concat (map (\<lambda>d. case cleanup_dir fails now age ?dp d of
                         None \<Rightarrow> [] | Some d' \<Rightarrow> [d']) dirs) = []"
    "\<not> fails ?dp"
    by (auto simp: Let_def split: if_splits)
  have "cleanup_dir fails now age ?dp c = None" if "c \<in> set dirs" for c
    using none(2) that by (cases "cleanup_dir fails now age ?dp c") auto
  moreover have "removes_file fails now age ?dp f" if "f \<in> set files" for f
    using none(1) that by (auto simp: filter_empty_conv)
  ultimately show ?thesis using none(3) Dir by simp
qed

lemma root_is_kept:
  "d_name hls = HLS_DIRECTORY \<Longrightarrow>
   \<exists>hls'. cleanup_dir fails now age [] hls = Some hls' \<and> d_name hls' = HLS_DIRECTORY"
  by (cases hls) (simp add: Let_def)

text \<open>
  C7. One cleanup pass over the HLS root keeps the root, creates no file, and keeps at its
  path every file whose name does not end in \<open>.ts\<close>, whatever its age, and every file
  (so every \<open>.ts\<close> file) whose modification time lies within \<open>age_seconds\<close> of the
  current time; a kept file keeps all the directories above it. A directory node that
  the pass removes is not the root, its own removal did not fail, the pass removed every
  one of its subdirectories and every one of its own files before, and every file below
  it was a \<open>.ts\<close> file older than \<open>age_seconds\<close> that the pass itself deleted: the
  directory was empty when removed.
\<close>

theorem hls_sweep_safety:
  assumes "d_name hls = HLS_DIRECTORY"
  shows "\<exists>hls'. cleanup_once fails now age_seconds hls = Some hls'
       \<and> d_name hls' = HLS_DIRECTORY
       \<and> set (all_files [] hls') \<subseteq> set (all_files [] hls)
       \<and> (\<forall>(p, mtime) \<in> set (all_files [] hls).
             \<not> endswith (last p) SEGMENT_EXT \<longrightarrow> (p, mtime) \<in> set (all_files [] hls'))
       \<and> (\<forall>(p, mtime) \<in> set (all_files [] hls).
             now - mtime \<le> of_int age_seconds \<longrightarrow> (p, mtime) \<in> set (all_files [] hls'))
       \<and> (\<forall>(parent, d) \<in> set (all_dirs [] hls).
             cleanup_dir fails now age_seconds parent d = None \<longrightarrow>
               parent @ [d_name d] \<noteq> [HLS_DIRECTORY]
             \<and> \<not> fails (parent @ [d_name d])
             \<and> (\<forall>c \<in> set (d_dirs d).
                   cleanup_dir fails now age_seconds (parent @ [d_name d]) c = None)
             \<and> (\<forall>f \<in> set (d_files d).
                   removes_file fails now age_seconds (parent @ [d_name d]) f)
             \<and> (\<forall>(p, mtime) \<in> set (all_files parent d).
                   endswith (last p) SEGMENT_EXT \<and> now - mtime > of_int age_seconds
                   \<and> \<not> fails p))"
proof -
  from root_is_kept[OF assms] obtain hls' where
    hls': "cleanup_dir fails now age_seconds [] hls = Some hls'" "d_name hls' = HLS_DIRECTORY"
    by blast
  have sub: "set (all_files [] hls') \<subseteq> set (all_files [] hls)"
    using cleanup_dir_files_subset[OF hls'(1)] .
  have keep: "(p, m) \<in> set (all_files [] hls')"
    if "(p, m) \<in> set (all_files [] hls)"
      and "\<not> removes_file fails now age_seconds (butlast p) (last p, m)" for p m
    using kept_file_survives[OF that] hls'(1) by simp
  have removed: "parent @ [d_name d] \<noteq> [HLS_DIRECTORY]
             \<and> (\<forall>(p, mtime) \<in> set (all_files parent d).
                   endswith (last p) SEGMENT_EXT \<and> now - mtime > of_int age_seconds
                   \<and> \<not> fails p)"
    if "cleanup_dir fails now age_seconds parent d = None" for parent d
    using removed_dir_was_emptied[OF that] all_files_path_nonempty[of _ _ parent d]
    by (fastforce simp: removes_file_def)
  have emptied: "\<not> fails (parent @ [d_name d])
             \<and> (\<forall>c \<in> set (d_dirs d).
                   cleanup_dir fails now age_seconds (parent @ [d_name d]) c = None)
             \<and> (\<forall>f \<in> set (d_files d).
                   removes_file fails now age_seconds (parent @ [d_name d]) f)"
    if "cleanup_dir fails now age_seconds parent d = None" for parent d
    using removed_dir_emptied_first[OF that] .
  have part1: "set (all_files [] hls') \<subseteq> set (all_files [] hls)
       \<and> (\<forall>(p, mtime) \<in> set (all_files [] hls).
             \<not> endswith (last p) SEGMENT_EXT \<longrightarrow> (p, mtime) \<in> set (all_files [] hls'))
       \<and> (\<forall>(p, mtime) \<in> set (all_files [] hls).
             now - mtime \<le> of_int age_seconds \<longrightarrow> (p, mtime) \<in> set (all_files [] hls'))"
    using sub keep by (auto simp: removes_file_def)
  have part2: "\<forall>(parent, d) \<in> set (all_dirs [] hls).
             cleanup_dir fails now age_seconds parent d = None \<longrightarrow>
               parent @ [d_name d] \<noteq> [HLS_DIRECTORY]
             \<and> \<not> fails (parent @ [d_name d])
             \<and> (\<forall>c \<in> set (d_dirs d).
                   cleanup_dir fails now age_seconds (parent @ [d_name d]) c = None)
             \<and> (\<forall>f \<in> set (d_files d).
                   removes_file fails now age_seconds (parent @ [d_name d]) f)
             \<and> (\<forall>(p, mtime) \<in> set (all_files parent d).
                   endswith (last p) SEGMENT_EXT \<and> now - mtime > of_int age_seconds
                   \<and> \<not> fails p)"
    using removed emptied by blast
  show ?thesis
    unfolding cleanup_once_def
    using hls' part1 part2 by blast
qed

theorem hls_sweep_safety_witness:
  "d_name scenario_hls = HLS_DIRECTORY
   \<and> cleanup_once (\<lambda>p. False) 1000 600 scenario_hls
       = Some (Dir ''hls'' [] [Dir ''a'' [(''seg_001.ts'', 900), (''stream.m3u8'', 100)] []])
   \<and> ([''hls'', ''a'', ''stream.m3u8''], 100)
       \<in> set (all_files [] (the (cleanup_once (\<lambda>p. False) 1000 600 scenario_hls)))
   \<and> ([''hls'', ''a'', ''seg_001.ts''], 900)
       \<in> set (all_files [] (the (cleanup_once (\<lambda>p. False) 1000 600 scenario_hls)))
   \<and> cleanup_dir (\<lambda>p. False) 1000 600 [''hls''] (Dir ''b'' [(''seg_000.ts'', 200)] []) = None
   \<and> cleanup_once (\<lambda>p. p = [''hls'', ''c'', ''d'']) 1000 600 nested_hls
       = Some (Dir ''hls'' [] [Dir ''c'' [] [Dir ''d'' [] []]])
   \<and> cleanup_once (\<lambda>p. False) 1000 600 nested_hls = Some (Dir ''hls'' [] [])"
  using hls_sweep_safety [of scenario_hls "\<lambda>p. False" 1000 600]
  by (simp add: scenario_hls_def nested_hls_def cleanup_once_def HLS_DIRECTORY_def
        SEGMENT_EXT_def removes_file_def endswith_def Let_def)

subsection \<open>The per-call performance mode\<close>

lemma encrypt_audio_file_missing:
  assumes "w_files w inp = None"
  shows "w_files (snd (encrypt_audio_file rt M ms tb1 tb2 w inp outp u t pm)) = w_files w"
    and "w_environ (snd (encrypt_audio_file rt M ms tb1 tb2 w inp outp u t pm))
           = (w_environ w)(''CHAOTIC_PERFORMANCE_MODE'' := None)"
    and "(fst (encrypt_audio_file rt M ms tb1 tb2 w inp outp u t pm))
           \<lparr>r_performance_mode := [], r_estimated_time := None\<rparr>
         = \<lparr>r_success = False, r_encrypted_path = None, r_original_file_sha256 = None,
            r_user_id = None, r_track_id = None, r_performance_mode = [],
            r_estimated_time = None, r_error = Some OSError\<rparr>"
  using assms by (simp_all add: encrypt_audio_file_def update_progress_def Let_def)

lemma encrypt_audio_file_rejected:
  assumes "w_files w inp = Some data"
    and "fst (encrypt_with_validation rt M tb1 tb2 data
                (create_audio_protection_key rt u t ms)) = Inl e"
  shows "w_files (snd (encrypt_audio_file rt M ms tb1 tb2 w inp outp u t pm)) = w_files w"
    and "w_environ (snd (encrypt_audio_file rt M ms tb1 tb2 w inp outp u t pm))
           = (w_environ w)(''CHAOTIC_PERFORMANCE_MODE'' := None)"
    and "(fst (encrypt_audio_file rt M ms tb1 tb2 w inp outp u t pm))
           \<lparr>r_performance_mode := [], r_estimated_time := None\<rparr>
         = \<lparr>r_success = False, r_encrypted_path = None, r_original_file_sha256 = None,
            r_user_id = None, r_track_id = None, r_performance_mode = [],
            r_estimated_time = None, r_error = Some e\<rparr>"
  using assms by (simp_all add: encrypt_audio_file_def update_progress_def Let_def)

lemma encrypt_audio_file_written:
  assumes "w_files w inp = Some data"
    and "fst (encrypt_with_validation rt M tb1 tb2 data
                (create_audio_protection_key rt u t ms)) = Inr blob"
  shows "w_files (snd (encrypt_audio_file rt M ms tb1 tb2 w inp outp u t pm))
           = (w_files w)(outp \<mapsto> blob)"
    and "w_environ (snd (encrypt_audio_file rt M ms tb1 tb2 w inp outp u t pm))
           = (w_environ w)(''CHAOTIC_PERFORMANCE_MODE'' := None)"
    and "(fst (encrypt_audio_file rt M ms tb1 tb2 w inp outp u t pm))
           \<lparr>r_performance_mode := [], r_estimated_time := None\<rparr>
         = \<lparr>r_success = True, r_encrypted_path = Some outp,
            r_original_file_sha256 = Some (rt_hexdigest rt (rt_sha256 rt data)),
            r_user_id = Some u, r_track_id = Some t, r_performance_mode = [],
            r_estimated_time = None, r_error = None\<rparr>"
  using assms by (simp_all add: encrypt_audio_file_def update_progress_def Let_def)


text \<open>
  C10. Two runs of \<open>ChaoticAudioProtection.encrypt_audio_file\<close> on the same inputs, the
  same module constant \<open>PERFORMANCE_MODE\<close> and the same random draws, which differ only in
  the argument \<open>performance_mode\<close>, write the same files (the same blob) and return
  dictionaries that differ at most in \<open>performance_mode\<close> and \<open>estimated_time\<close>; the
  environment variable the method sets is gone when it returns. The argument does reach
  the time estimate: for one MiB it is 3 seconds in \<open>fast\<close> and 17.5 in \<open>secure\<close>.
\<close>

theorem performance_mode_never_reaches_cipher:
  "w_files (snd (encrypt_audio_file rt PERFORMANCE_MODE ms tb1 tb2 w inp outp u t pm))
     = w_files (snd (encrypt_audio_file rt PERFORMANCE_MODE ms tb1 tb2 w inp outp u t pm'))
   \<and> (fst (encrypt_audio_file rt PERFORMANCE_MODE ms tb1 tb2 w inp outp u t pm))
        \<lparr>r_performance_mode := [], r_estimated_time := None\<rparr>
     = (fst (encrypt_audio_file rt PERFORMANCE_MODE ms tb1 tb2 w inp outp u t pm'))
        \<lparr>r_performance_mode := [], r_estimated_time := None\<rparr>
   \<and> w_environ (snd (encrypt_audio_file rt PERFORMANCE_MODE ms tb1 tb2 w inp outp u t pm))
     = (w_environ w)(''CHAOTIC_PERFORMANCE_MODE'' := None)
   \<and> estimate_encryption_time test_runtime (1024 * 1024) ''fast'' = 3
   \<and> estimate_encryption_time test_runtime (1024 * 1024) ''secure'' = 35 / 2"
proof -
  have est: "estimate_encryption_time test_runtime (1024 * 1024) ''fast'' = 3"
    "estimate_encryption_time test_runtime (1024 * 1024) ''secure'' = 35 / 2"
    by (simp_all add: estimate_encryption_time_def test_runtime_def Let_def)
  show ?thesis
  proof (cases "w_files w inp")
    case None
    show ?thesis
      using est by (simp add: encrypt_audio_file_missing[OF None])
  next
    case (Some data)
    show ?thesis
    proof (cases "fst (encrypt_with_validation rt PERFORMANCE_MODE tb1 tb2 data
                         (create_audio_protection_key rt u t ms))")
      case (Inl e)
      show ?thesis
        using est by (simp add: encrypt_audio_file_rejected[OF Some Inl])
    next
      case (Inr blob)
      show ?thesis
        using est by (simp add: encrypt_audio_file_written[OF Some Inr])
    qed
  qed
qed

subsection \<open>Session manager\<close>

lemma set_set_add [simp]: "set (set_add x xs) = insert x (set xs)"
  by (auto simp: set_add_def)

lemma distinct_set_add [simp]: "distinct (set_add x xs) = distinct xs"
  by (auto simp: set_add_def)

lemma set_set_discard [simp]: "set (set_discard x xs) = set xs - {x}"
  by (auto simp: set_discard_def)

lemma distinct_set_discard [simp]: "distinct xs \<Longrightarrow> distinct (set_discard x xs)"
  by (simp add: set_discard_def distinct_removeAll)

lemma length_filter_mono:
  "(\<And>x. x \<in> set xs \<Longrightarrow> P x \<Longrightarrow> Q x) \<Longrightarrow> length (filter P xs) \<le> length (filter Q xs)"
  by (induction xs) auto

lemma length_filter_discard:
  "(\<And>x. x \<in> set xs \<Longrightarrow> P x \<Longrightarrow> Q x) \<Longrightarrow>
   length (filter P (set_discard a xs)) \<le> length (filter Q xs)"
  unfolding set_discard_def by (induction xs) auto

lemma counts_mono:
  "session_counts st now' sid \<Longrightarrow> now \<le> now' \<Longrightarrow> session_counts st now sid"
  by (auto simp: session_counts_def split: option.splits)

lemma sm_inv_mono:
  assumes "sm_inv now st" and "now \<le> now'"
  shows "sm_inv now' st"
proof -
  have tr: "sm_tracked now' st"
    using assms unfolding sm_inv_def sm_tracked_def by (blast intro: counts_mono)
  have bd: "sm_bounded now' st"
    unfolding sm_bounded_def
  proof (intro allI impI)
    fix u ids assume u: "user_sessions st u = Some ids"
    then have d: "distinct ids"
      and b: "length (filter (session_counts st now) ids) \<le> max_sessions_per_user"
      using assms(1) unfolding sm_inv_def sm_bounded_def by blast+
    have "length (filter (session_counts st now') ids) \<le> length (filter (session_counts st now) ids)"
      by (rule length_filter_mono) (rule counts_mono[OF _ assms(2)])
    with d b show "distinct ids \<and> length (filter (session_counts st now') ids) \<le> max_sessions_per_user"
      by simp
  qed
  show ?thesis using assms(1) tr bd by (simp add: sm_inv_def)
qed

text \<open>revoke_session\<close>

lemma revoke_session_None:
  "map_of (active_sessions st) sid = None \<Longrightarrow> revoke_session st now sid r = st"
  by (simp add: revoke_session_def)

lemma revoke_session_active:
  "map_of (active_sessions st) sid = Some d \<Longrightarrow>
   map_of (active_sessions (revoke_session st now sid r))
     = (map_of (active_sessions st))(sid \<mapsto> d\<lparr>s_is_active := False, s_revoked_at := Some now,
                                               s_revoke_reason := Some r\<rparr>)"
  by (simp add: revoke_session_def Let_def update_conv')

lemma revoke_session_revoked:
  "map_of (active_sessions st) sid = Some d \<Longrightarrow>
   set (revoked_sessions (revoke_session st now sid r)) = insert sid (set (revoked_sessions st))"
  by (simp add: revoke_session_def Let_def)

lemma revoke_session_users:
  "map_of (active_sessions st) sid = Some d \<Longrightarrow>
   user_sessions (revoke_session st now sid r) u
     = (if u = s_user_id d then map_option (set_discard sid) (user_sessions st u)
        else user_sessions st u)"
  by (auto simp: revoke_session_def Let_def split: option.splits)

lemma revoke_session_counts:
  "session_counts (revoke_session st now sid r) t x = (session_counts st t x \<and> x \<noteq> sid)"
proof (cases "map_of (active_sessions st) sid")
  case None
  then show ?thesis by (auto simp: revoke_session_None session_counts_def)
next
  case (Some d)
  show ?thesis
    by (auto simp: session_counts_def revoke_session_active[OF Some] revoke_session_revoked[OF Some]
          split: option.splits)
qed

lemma sm_inv_revoke:
  assumes "sm_inv now st"
  shows "sm_inv now (revoke_session st t sid r)"
proof (cases "map_of (active_sessions st) sid")
  case None
  then show ?thesis using assms by (simp add: revoke_session_None)
next
  case (Some d)
  note A = revoke_session_active[OF Some, of t r]
  note R = revoke_session_revoked[OF Some, of t r]
  note U = revoke_session_users[OF Some, of t r]
  from assms have tr: "sm_tracked now st" and bd: "sm_bounded now st" and ow: "sm_owned st"
    and cl: "sm_closed st" by (simp_all add: sm_inv_def)
  have tr': "sm_tracked now (revoke_session st t sid r)"
    unfolding sm_tracked_def revoke_session_counts
  proof (intro allI impI)
    fix x assume x: "session_counts st now x \<and> x \<noteq> sid"
    with tr obtain dx ids where dx: "map_of (active_sessions st) x = Some dx"
      "user_sessions st (s_user_id dx) = Some ids" "x \<in> set ids"
      unfolding sm_tracked_def by blast
    then show "\<exists>d ids. map_of (active_sessions (revoke_session st t sid r)) x = Some d
        \<and> user_sessions (revoke_session st t sid r) (s_user_id d) = Some ids \<and> x \<in> set ids"
      using x by (auto simp: A U)
  qed
  have bd': "sm_bounded now (revoke_session st t sid r)"
    unfolding sm_bounded_def
  proof (intro allI impI)
    fix u ids' assume u: "user_sessions (revoke_session st t sid r) u = Some ids'"
    then obtain ids where ids: "user_sessions st u = Some ids"
      and ids': "ids' = ids \<or> ids' = set_discard sid ids"
      by (auto simp: U split: if_splits)
    from bd ids have d: "distinct ids"
      and b: "length (filter (session_counts st now) ids) \<le> max_sessions_per_user"
      unfolding sm_bounded_def by blast+
    have "length (filter (session_counts (revoke_session st t sid r) now) ids')
            \<le> length (filter (session_counts st now) ids)"
      using ids'
      by (auto simp: revoke_session_counts intro!: length_filter_mono length_filter_discard)
    with d b ids' show "distinct ids'
        \<and> length (filter (session_counts (revoke_session st t sid r) now) ids') \<le> max_sessions_per_user"
      by auto
  qed
  have ow': "sm_owned (revoke_session st t sid r)"
    unfolding sm_owned_def
  proof (intro allI impI)
    fix u ids' x assume u: "user_sessions (revoke_session st t sid r) u = Some ids'"
      and x: "x \<in> set ids'"
    then obtain ids where ids: "user_sessions st u = Some ids" and xi: "x \<in> set ids"
      and ne: "u = s_user_id d \<longrightarrow> x \<noteq> sid"
      by (auto simp: U split: if_splits)
    from ow ids xi obtain dx where dx: "x \<notin> set (revoked_sessions st)"
      "map_of (active_sessions st) x = Some dx" "s_user_id dx = u"
      unfolding sm_owned_def by blast
    have "x \<noteq> sid" using ne dx Some by auto
    then show "x \<notin> set (revoked_sessions (revoke_session st t sid r))
        \<and> (\<exists>d. map_of (active_sessions (revoke_session st t sid r)) x = Some d \<and> s_user_id d = u)"
      using dx by (simp add: A R)
  qed
  have cl': "sm_closed (revoke_session st t sid r)"
    using cl Some by (auto simp: sm_closed_def A R)
  show ?thesis using tr' bd' ow' cl' by (simp add: sm_inv_def)
qed

lemma sm_inv_fold_revoke:
  "sm_inv now st \<Longrightarrow>
   sm_inv now (fold (\<lambda>sid s. if P sid then revoke_session s t sid r else s) sids st)"
  by (induction sids arbitrary: st) (auto intro: sm_inv_revoke)

text \<open>get_user_sessions\<close>

lemma get_user_sessions_views:
  "active_sessions (snd (get_user_sessions st now u)) = active_sessions st"
  "revoked_sessions (snd (get_user_sessions st now u)) = revoked_sessions st"
  "sm_last_cleanup (snd (get_user_sessions st now u)) = sm_last_cleanup st"
  by (simp_all add: get_user_sessions_def Let_def split: option.splits)

lemma get_user_sessions_counts [simp]:
  "session_counts (snd (get_user_sessions st now u)) t = session_counts st t"
  by (rule ext) (simp add: session_counts_def get_user_sessions_views split: option.splits)

lemma get_user_sessions_users:
  "user_sessions (snd (get_user_sessions st now u)) v
     = (if v = u then map_option (filter (session_counts st now)) (user_sessions st u)
        else user_sessions st v)"
  by (auto simp: get_user_sessions_def Let_def split: option.splits)

lemma get_user_sessions_fst:
  "fst (get_user_sessions st now u)
     = (case user_sessions st u of None \<Rightarrow> [] | Some ids \<Rightarrow> filter (session_counts st now) ids)"
  by (simp add: get_user_sessions_def Let_def split: option.splits)

lemma sm_inv_get_user_sessions:
  assumes "sm_inv now st"
  shows "sm_inv now (snd (get_user_sessions st now u))"
proof -
  let ?st = "snd (get_user_sessions st now u)"
  from assms have tr: "sm_tracked now st" and bd: "sm_bounded now st" and ow: "sm_owned st"
    and cl: "sm_closed st" by (simp_all add: sm_inv_def)
  have tr': "sm_tracked now ?st"
    unfolding sm_tracked_def
  proof (intro allI impI)
    fix x assume x: "session_counts ?st now x"
    then have c: "session_counts st now x" by simp
    with tr obtain dx ids where dx: "map_of (active_sessions st) x = Some dx"
      "user_sessions st (s_user_id dx) = Some ids" "x \<in> set ids"
      unfolding sm_tracked_def by blast
    then show "\<exists>d ids. map_of (active_sessions ?st) x = Some d
        \<and> user_sessions ?st (s_user_id d) = Some ids \<and> x \<in> set ids"
      using c by (auto simp: get_user_sessions_views get_user_sessions_users)
  qed
  have bd': "sm_bounded now ?st"
    unfolding sm_bounded_def
  proof (intro allI impI)
    fix v ids' assume "user_sessions ?st v = Some ids'"
    then obtain ids where ids: "user_sessions st v = Some ids"
      and ids': "ids' = ids \<or> ids' = filter (session_counts st now) ids"
      by (auto simp: get_user_sessions_users split: if_splits)
    from bd ids have "distinct ids"
      "length (filter (session_counts st now) ids) \<le> max_sessions_per_user"
      unfolding sm_bounded_def by blast+
    with ids' show "distinct ids' \<and> length (filter (session_counts ?st now) ids') \<le> max_sessions_per_user"
      by auto
  qed
  have ow': "sm_owned ?st"
    unfolding sm_owned_def
  proof (intro allI impI)
    fix v ids' x assume "user_sessions ?st v = Some ids'" "x \<in> set ids'"
    then obtain ids where "user_sessions st v = Some ids" "x \<in> set ids"
      by (auto simp: get_user_sessions_users split: if_splits)
    with ow show "x \<notin> set (revoked_sessions ?st)
        \<and> (\<exists>d. map_of (active_sessions ?st) x = Some d \<and> s_user_id d = v)"
      unfolding sm_owned_def by (simp add: get_user_sessions_views)
  qed
  have cl': "sm_closed ?st" using cl by (simp add: sm_closed_def get_user_sessions_views)
  show ?thesis using tr' bd' ow' cl' by (simp add: sm_inv_def)
qed

text \<open>Purging one old revoked session\<close>

lemma purge_one_counts:
  "session_counts (purge_one sid st) t x = (session_counts st t x \<and> x \<noteq> sid)"
  by (auto simp: purge_one_def session_counts_def delete_conv' split: option.splits)

lemma sm_inv_purge_one:
  assumes "sm_inv now st" and "sid \<in> set (revoked_sessions st) \<or> map_of (active_sessions st) sid = None"
  shows "sm_inv now (purge_one sid st)"
proof -
  let ?st = "purge_one sid st"
  from assms have tr: "sm_tracked now st" and bd: "sm_bounded now st" and ow: "sm_owned st"
    and cl: "sm_closed st" by (simp_all add: sm_inv_def)
  have A: "map_of (active_sessions ?st) = (map_of (active_sessions st))(sid := None)"
    by (simp add: purge_one_def delete_conv')
  have R: "set (revoked_sessions ?st) = set (revoked_sessions st) - {sid}"
    by (simp add: purge_one_def)
  have U: "user_sessions ?st = user_sessions st" by (simp add: purge_one_def)
  have notin: "sid \<notin> set ids" if "user_sessions st u = Some ids" for u ids
    using ow that assms(2) unfolding sm_owned_def by fastforce
  have tr': "sm_tracked now ?st"
    using tr unfolding sm_tracked_def purge_one_counts by (auto simp: A U)
  have bd': "sm_bounded now ?st"
    unfolding sm_bounded_def U
  proof (intro allI impI)
    fix u ids assume u: "user_sessions st u = Some ids"
    with bd have "distinct ids" "length (filter (session_counts st now) ids) \<le> max_sessions_per_user"
      unfolding sm_bounded_def by blast+
    moreover have "length (filter (session_counts ?st now) ids)
                     \<le> length (filter (session_counts st now) ids)"
      by (rule length_filter_mono) (simp add: purge_one_counts)
    ultimately show "distinct ids \<and> length (filter (session_counts ?st now) ids) \<le> max_sessions_per_user"
      by simp
  qed
  have ow': "sm_owned ?st"
    using ow notin unfolding sm_owned_def by (auto simp: A R U)
  have cl': "sm_closed ?st" using cl by (auto simp: sm_closed_def A R)
  show ?thesis using tr' bd' ow' cl' by (simp add: sm_inv_def)
qed

lemma sm_inv_fold_purge:
  "sm_inv now st \<Longrightarrow>
   \<forall>sid \<in> set sids. sid \<in> set (revoked_sessions st) \<or> map_of (active_sessions st) sid = None \<Longrightarrow>
   sm_inv now (fold purge_one sids st)"
proof (induction sids arbitrary: st)
  case Nil
  then show ?case by simp
next
  case (Cons a sids)
  have "sm_inv now (purge_one a st)" using Cons.prems by (intro sm_inv_purge_one) auto
  moreover have "\<forall>sid \<in> set sids. sid \<in> set (revoked_sessions (purge_one a st))
                   \<or> map_of (active_sessions (purge_one a st)) sid = None"
    using Cons.prems(2) by (auto simp: purge_one_def delete_conv')
  ultimately show ?case using Cons.IH by simp
qed

lemma cleanup_expired_sessions_alt:
  "cleanup_expired_sessions st now =
     (if now - sm_last_cleanup st < sm_cleanup_interval then st
      else (let st1 = fold (\<lambda>sid s. if True then revoke_session s now sid ''expired'' else s)
                        (map fst (filter (\<lambda>(session_id, session_data). s_expires_at session_data < now)
                             (active_sessions st))) st;
                old_revoked = filter (\<lambda>session_id.
                            case map_of (active_sessions st1) session_id of
                              None \<Rightarrow> False
                            | Some session_data \<Rightarrow>
                                (case s_revoked_at session_data of
                                   None \<Rightarrow> False
                                 | Some revoked_at \<Rightarrow> now - revoked_at > 24 * 3600))
                    (revoked_sessions st1)
            in (fold purge_one old_revoked st1)\<lparr>sm_last_cleanup := now\<rparr>))"
proof -
  have "purge_one = (\<lambda>session_id s.
                              s\<lparr>revoked_sessions := set_discard session_id (revoked_sessions s),
                                active_sessions := AList.delete session_id (active_sessions s)\<rparr>)"
    by (intro ext) (simp add: purge_one_def)
  then show ?thesis by (simp add: cleanup_expired_sessions_def Let_def)
qed

lemma session_counts_last_cleanup [simp]:
  "session_counts (st\<lparr>sm_last_cleanup := t\<rparr>) = session_counts st"
  by (intro ext) (simp add: session_counts_def split: option.splits)

lemma sm_inv_last_cleanup [simp]: "sm_inv now (st\<lparr>sm_last_cleanup := t\<rparr>) = sm_inv now st"
  by (simp add: sm_inv_def sm_tracked_def sm_bounded_def sm_owned_def sm_closed_def)

lemma sm_inv_cleanup:
  assumes "sm_inv now st"
  shows "sm_inv now (cleanup_expired_sessions st now)"
  unfolding cleanup_expired_sessions_alt
  by (auto simp: Let_def simp del: if_True intro!: sm_inv_fold_purge sm_inv_fold_revoke assms)

lemma revoke_session_dom:
  "dom (map_of (active_sessions (revoke_session st t sid r))) = dom (map_of (active_sessions st))"
proof (cases "map_of (active_sessions st) sid")
  case None
  then show ?thesis by (simp add: revoke_session_None)
next
  case (Some d)
  then show ?thesis by (auto simp: revoke_session_active[OF Some])
qed

lemma fold_revoke_dom:
  "dom (map_of (active_sessions
          (fold (\<lambda>sid s. if P sid then revoke_session s t sid r else s) sids st)))
     = dom (map_of (active_sessions st))"
  by (induction sids arbitrary: st) (simp_all add: revoke_session_dom)

lemma fold_purge_dom:
  "dom (map_of (active_sessions (fold purge_one sids st))) \<subseteq> dom (map_of (active_sessions st))"
proof (induction sids arbitrary: st)
  case Nil
  then show ?case by simp
next
  case (Cons a sids)
  have "dom (map_of (active_sessions (purge_one a st))) \<subseteq> dom (map_of (active_sessions st))"
    by (auto simp: purge_one_def delete_conv')
  with Cons.IH[of "purge_one a st"] show ?case by auto
qed

lemma cleanup_dom:
  "dom (map_of (active_sessions (cleanup_expired_sessions st now)))
     \<subseteq> dom (map_of (active_sessions st))"
proof -
  have "dom (map_of (active_sessions (fold purge_one ys
               (fold (\<lambda>sid s. if True then revoke_session s now sid ''expired'' else s) xs st))))
          \<subseteq> dom (map_of (active_sessions st))" for xs ys
    using fold_purge_dom[of ys "fold (\<lambda>sid s. if True then revoke_session s now sid ''expired'' else s) xs st"]
      fold_revoke_dom[of "\<lambda>_. True" now "''expired''" xs st]
    by simp
  then show ?thesis
    unfolding cleanup_expired_sessions_alt by (simp add: Let_def del: if_True)
qed

text \<open>The last step of create_session: storing the new session\<close>

lemma sm_inv_store_session:
  assumes inv: "sm_inv now st" and fresh: "map_of (active_sessions st) sid = None"
    and room: "length (case user_sessions st (s_user_id d) of None \<Rightarrow> [] | Some ids \<Rightarrow> ids) < max_sessions_per_user"
  shows "sm_inv now (store_session st sid d)"
proof -
  let ?st = "store_session st sid d"
  let ?u = "s_user_id d"
  let ?ids = "case user_sessions st ?u of None \<Rightarrow> [] | Some ids \<Rightarrow> ids"
  from inv have tr: "sm_tracked now st" and bd: "sm_bounded now st" and ow: "sm_owned st"
    and cl: "sm_closed st" by (simp_all add: sm_inv_def)
  have A: "map_of (active_sessions ?st) = (map_of (active_sessions st))(sid \<mapsto> d)"
    by (simp add: store_session_def update_conv')
  have R: "revoked_sessions ?st = revoked_sessions st" by (simp add: store_session_def)
  have U: "user_sessions ?st = (user_sessions st)(?u \<mapsto> set_add sid ?ids)"
    by (simp add: store_session_def)
  have notR: "sid \<notin> set (revoked_sessions st)" using cl fresh by (auto simp: sm_closed_def)
  have old: "session_counts ?st now x = session_counts st now x" if "x \<noteq> sid" for x
    using that by (simp add: session_counts_def A R split: option.splits)
  have in_ids: "x \<noteq> sid" if "user_sessions st v = Some ids" "x \<in> set ids" for v ids x
    using ow that fresh unfolding sm_owned_def by fastforce
  have ids_distinct: "distinct ?ids"
    using bd unfolding sm_bounded_def by (auto split: option.splits)
  have tr': "sm_tracked now ?st"
    unfolding sm_tracked_def
  proof (intro allI impI)
    fix x assume x: "session_counts ?st now x"
    show "\<exists>dx ids. map_of (active_sessions ?st) x = Some dx
        \<and> user_sessions ?st (s_user_id dx) = Some ids \<and> x \<in> set ids"
    proof (cases "x = sid")
      case True
      then show ?thesis by (simp add: A U)
    next
      case False
      with x have "session_counts st now x" by (simp add: old)
      with tr obtain dx ids where dx: "map_of (active_sessions st) x = Some dx"
        "user_sessions st (s_user_id dx) = Some ids" "x \<in> set ids"
        unfolding sm_tracked_def by blast
      then show ?thesis using False by (auto simp: A U)
    qed
  qed
  have bd': "sm_bounded now ?st"
    unfolding sm_bounded_def
  proof (intro allI impI)
    fix v ids' assume v: "user_sessions ?st v = Some ids'"
    show "distinct ids' \<and> length (filter (session_counts ?st now) ids') \<le> max_sessions_per_user"
    proof (cases "v = ?u")
      case True
      then have ids': "ids' = set_add sid ?ids" using v by (simp add: U)
      have l1: "length ids' \<le> Suc (length ?ids)" unfolding ids' by (simp add: set_add_def)
      have l2: "length (filter (session_counts ?st now) ids') \<le> length ids'" by simp
      from l1 l2 room have "length (filter (session_counts ?st now) ids') \<le> max_sessions_per_user"
        by linarith
      moreover have "distinct ids'" unfolding ids' using ids_distinct by simp
      ultimately show ?thesis by simp
    next
      case False
      then have vs: "user_sessions st v = Some ids'" using v by (simp add: U)
      with bd have "distinct ids'"
        "length (filter (session_counts st now) ids') \<le> max_sessions_per_user"
        unfolding sm_bounded_def by blast+
      moreover have "filter (session_counts ?st now) ids' = filter (session_counts st now) ids'"
        by (rule filter_cong[OF refl]) (simp add: old in_ids[OF vs])
      ultimately show ?thesis by simp
    qed
  qed
  have ow': "sm_owned ?st"
    unfolding sm_owned_def
  proof (intro allI impI)
    fix v ids' x assume v: "user_sessions ?st v = Some ids'" and x: "x \<in> set ids'"
    show "x \<notin> set (revoked_sessions ?st)
        \<and> (\<exists>dx. map_of (active_sessions ?st) x = Some dx \<and> s_user_id dx = v)"
    proof (cases "x = sid")
      case True
      have "v = ?u"
      proof (rule ccontr)
        assume "v \<noteq> ?u"
        then have "user_sessions st v = Some ids'" using v by (simp add: U)
        from in_ids[OF this x] True show False by simp
      qed
      then show ?thesis using True notR by (simp add: A R)
    next
      case False
      have "\<exists>ids. user_sessions st v = Some ids \<and> x \<in> set ids"
        using v x False by (auto simp: U split: if_splits option.splits)
      with ow show ?thesis using False unfolding sm_owned_def by (auto simp: A R)
    qed
  qed
  have cl': "sm_closed ?st" using cl by (auto simp: sm_closed_def A R)
  show ?thesis using tr' bd' ow' cl' by (simp add: sm_inv_def)
qed

lemma create_session_alt:
  "snd (create_session T h st now sid u ip ua fp) =
     (let st2 = snd (get_user_sessions (cleanup_expired_sessions st now) now u);
          cur = fst (get_user_sessions (cleanup_expired_sessions st now) now u);
          st3 = (if length cur \<ge> max_sessions_per_user
                   then revoke_session st2 now (oldest_session st2 cur) ''session_limit_exceeded''
                 else st2)
      in store_session st3 sid
           \<lparr>s_user_id = u, s_client_ip = ip, s_user_agent_hash = h ua,
            s_device_fingerprint = fp, s_created_at = now, s_last_accessed = now,
            s_expires_at = now + 60 * T, s_access_count = 0, s_is_active = True,
            s_revoked_at = None, s_revoke_reason = None\<rparr>)"
  by (simp add: create_session_def store_session_def Let_def case_prod_beta)

lemma oldest_session_in: "cur \<noteq> [] \<Longrightarrow> oldest_session st cur \<in> set cur"
  by (simp add: oldest_session_def arg_min_list_in)

lemma length_set_discard:
  "distinct xs \<Longrightarrow> x \<in> set xs \<Longrightarrow> Suc (length (set_discard x xs)) = length xs"
  by (induction xs) (auto simp: set_discard_def)

lemma current_sessions_room:
  fixes st1 :: session_state and now :: int and u :: string
  assumes inv: "sm_inv now st1"
  defines "st2 \<equiv> snd (get_user_sessions st1 now u)"
    and "cur \<equiv> fst (get_user_sessions st1 now u)"
  defines "st3 \<equiv> (if length cur \<ge> max_sessions_per_user
                   then revoke_session st2 now (oldest_session st2 cur) ''session_limit_exceeded''
                 else st2)"
  shows "length (case user_sessions st3 u of None \<Rightarrow> [] | Some ids \<Rightarrow> ids) < max_sessions_per_user"
proof -
  have inv2: "sm_inv now st2" unfolding st2_def by (rule sm_inv_get_user_sessions[OF inv])
  have U2: "(case user_sessions st2 u of None \<Rightarrow> [] | Some ids \<Rightarrow> ids) = cur"
    unfolding st2_def cur_def
    by (simp add: get_user_sessions_users get_user_sessions_fst split: option.splits)
  show ?thesis
  proof (cases "length cur \<ge> max_sessions_per_user")
    case False
    then show ?thesis using U2 by (simp add: st3_def)
  next
    case True
    then have ne: "cur \<noteq> []" by (auto simp: max_sessions_per_user_def)
    with U2 have U2': "user_sessions st2 u = Some cur" by (auto split: option.splits)
    let ?o = "oldest_session st2 cur"
    have o: "?o \<in> set cur" using ne by (rule oldest_session_in)
    from inv2 U2' o obtain d where d: "map_of (active_sessions st2) ?o = Some d" "s_user_id d = u"
      unfolding sm_inv_def sm_owned_def by blast
    from inv2 U2' have dist: "distinct cur"
      and len: "length (filter (session_counts st2 now) cur) \<le> max_sessions_per_user"
      unfolding sm_inv_def sm_bounded_def by blast+
    have "filter (session_counts st2 now) cur = cur"
      unfolding st2_def cur_def
      by (simp add: get_user_sessions_fst split: option.splits)
    with len have len': "length cur \<le> max_sessions_per_user" by simp
    have "user_sessions st3 u = Some (set_discard ?o cur)"
      using True d U2' by (simp add: st3_def revoke_session_users[OF d(1)])
    then show ?thesis using length_set_discard[OF dist o] len' by simp
  qed
qed

lemma sm_inv_create:
  assumes inv: "sm_inv now st" and fresh: "sid \<notin> dom (map_of (active_sessions st))"
  shows "sm_inv now (snd (create_session T h st now sid u ip ua fp))"
proof -
  let ?st1 = "cleanup_expired_sessions st now"
  let ?st2 = "snd (get_user_sessions ?st1 now u)"
  let ?cur = "fst (get_user_sessions ?st1 now u)"
  let ?st3 = "if length ?cur \<ge> max_sessions_per_user
                   then revoke_session ?st2 now (oldest_session ?st2 ?cur) ''session_limit_exceeded''
                 else ?st2"
  have inv1: "sm_inv now ?st1" by (rule sm_inv_cleanup[OF inv])
  have inv3: "sm_inv now ?st3"
    by (auto intro: sm_inv_revoke sm_inv_get_user_sessions[OF inv1])
  have "dom (map_of (active_sessions ?st3)) \<subseteq> dom (map_of (active_sessions st))"
    using cleanup_dom[of st now]
    by (auto simp: revoke_session_dom get_user_sessions_views)
  with fresh have fresh3: "map_of (active_sessions ?st3) sid = None" by blast
  have room: "length (case user_sessions ?st3 u of None \<Rightarrow> [] | Some ids \<Rightarrow> ids)
                < max_sessions_per_user"
    using current_sessions_room[OF inv1, of u] by simp
  show ?thesis
    unfolding create_session_alt Let_def
    by (rule sm_inv_store_session[OF inv3 fresh3]) (simp add: room)
qed

lemma create_session_dom:
  "dom (map_of (active_sessions (snd (create_session T h st now sid u ip ua fp))))
     \<subseteq> insert sid (dom (map_of (active_sessions st)))"
  unfolding create_session_alt Let_def
  using cleanup_dom[of st now]
  by (auto simp: store_session_def update_conv' revoke_session_dom get_user_sessions_views
      split: if_splits)

lemma sm_inv_validate:
  assumes inv: "sm_inv now st"
  shows "sm_inv now (snd (validate_session T st now sid ip rim))"
proof (cases "map_of (active_sessions st) sid")
  case None
  then show ?thesis using inv by (simp add: validate_session_def)
next
  case (Some d)
  define d2 where "d2 = (let d1 = d\<lparr>s_last_accessed := now, s_access_count := s_access_count d + 1\<rparr>
      in if s_expires_at d1 - now < 30 * 60 then d1\<lparr>s_expires_at := now + 60 * T\<rparr> else d1)"
  let ?st = "st\<lparr>active_sessions := AList.update sid d2 (active_sessions st)\<rparr>"
  have d2: "s_user_id d2 = s_user_id d" "s_is_active d2 = s_is_active d"
    by (simp_all add: d2_def Let_def)
  have "snd (validate_session T st now sid ip rim) = st
      \<or> snd (validate_session T st now sid ip rim) = revoke_session st now sid ''expired''
      \<or> (snd (validate_session T st now sid ip rim) = ?st
           \<and> sid \<notin> set (revoked_sessions st) \<and> \<not> now > s_expires_at d \<and> s_is_active d)"
    using Some by (simp add: validate_session_def d2_def Let_def)
  then consider (same) "snd (validate_session T st now sid ip rim) = st"
    | (rev) "snd (validate_session T st now sid ip rim) = revoke_session st now sid ''expired''"
    | (upd) "snd (validate_session T st now sid ip rim) = ?st"
        "sid \<notin> set (revoked_sessions st)" "\<not> now > s_expires_at d" "s_is_active d"
    by blast
  then show ?thesis
  proof cases
    case same
    then show ?thesis using inv by simp
  next
    case rev
    then show ?thesis using sm_inv_revoke[OF inv] by simp
  next
    case upd
    from inv have tr: "sm_tracked now st" and bd: "sm_bounded now st" and ow: "sm_owned st"
      and cl: "sm_closed st" by (simp_all add: sm_inv_def)
    have A: "map_of (active_sessions ?st) = (map_of (active_sessions st))(sid \<mapsto> d2)"
      by (simp add: update_conv')
    have c0: "session_counts st now sid"
      using Some upd by (simp add: session_counts_def)
    have cs: "session_counts ?st now x \<Longrightarrow> session_counts st now x" for x
      using c0 by (cases "x = sid") (auto simp: session_counts_def update_conv' split: option.splits)
    have tr': "sm_tracked now ?st"
      unfolding sm_tracked_def
    proof (intro allI impI)
      fix x assume "session_counts ?st now x"
      then have "session_counts st now x" by (rule cs)
      with tr obtain dx ids where dx: "map_of (active_sessions st) x = Some dx"
        "user_sessions st (s_user_id dx) = Some ids" "x \<in> set ids"
        unfolding sm_tracked_def by blast
      then show "\<exists>d ids. map_of (active_sessions ?st) x = Some d
          \<and> user_sessions ?st (s_user_id d) = Some ids \<and> x \<in> set ids"
        using Some d2 by (cases "x = sid") (auto simp: update_conv')
    qed
    have bd': "sm_bounded now ?st"
      unfolding sm_bounded_def
    proof (intro allI impI)
      fix u ids assume "user_sessions ?st u = Some ids"
      then have "user_sessions st u = Some ids" by simp
      with bd have "distinct ids"
        "length (filter (session_counts st now) ids) \<le> max_sessions_per_user"
        unfolding sm_bounded_def by blast+
      moreover have "length (filter (session_counts ?st now) ids)
                       \<le> length (filter (session_counts st now) ids)"
        by (rule length_filter_mono) (rule cs)
      ultimately show "distinct ids
          \<and> length (filter (session_counts ?st now) ids) \<le> max_sessions_per_user"
        by simp
    qed
    have ow': "sm_owned ?st"
      unfolding sm_owned_def
    proof (intro allI impI)
      fix u ids x assume "user_sessions ?st u = Some ids" "x \<in> set ids"
      with ow obtain dx where "x \<notin> set (revoked_sessions st)"
        "map_of (active_sessions st) x = Some dx" "s_user_id dx = u"
        unfolding sm_owned_def by fastforce
      then show "x \<notin> set (revoked_sessions ?st)
          \<and> (\<exists>d. map_of (active_sessions ?st) x = Some d \<and> s_user_id d = u)"
        using Some d2 by (cases "x = sid") (auto simp: update_conv')
    qed
    have cl': "sm_closed ?st" using cl by (auto simp: sm_closed_def update_conv')
    show ?thesis using tr' bd' ow' cl' upd(1) by (simp add: sm_inv_def)
  qed
qed

lemma validate_session_dom:
  "dom (map_of (active_sessions (snd (validate_session T st now sid ip rim))))
     = dom (map_of (active_sessions st))"
  by (auto simp: validate_session_def Let_def revoke_session_dom update_conv'
      split: option.splits if_splits)

lemma sm_inv_revoke_user:
  "sm_inv now st \<Longrightarrow> sm_inv now (revoke_user_sessions st now u ex)"
  unfolding revoke_user_sessions_def
  by (simp add: case_prod_beta sm_inv_fold_revoke sm_inv_get_user_sessions)

lemma revoke_user_dom:
  "dom (map_of (active_sessions (revoke_user_sessions st now u ex)))
     = dom (map_of (active_sessions st))"
  unfolding revoke_user_sessions_def
  by (simp add: case_prod_beta fold_revoke_dom get_user_sessions_views)

lemma sm_inv_count:
  "sm_inv now st \<Longrightarrow> sm_inv now (snd (get_user_session_count st now u))"
  by (simp add: get_user_session_count_def case_prod_beta sm_inv_get_user_sessions)

lemma count_dom:
  "dom (map_of (active_sessions (snd (get_user_session_count st now u))))
     = dom (map_of (active_sessions st))"
  by (simp add: get_user_session_count_def case_prod_beta get_user_sessions_views)

lemma sm_step_good:
  assumes "sm_step T h c c'" and "sm_good c"
  shows "sm_good c'"
  using assms
proof (induction rule: sm_step.induct)
  case (create now now' sid used st user_id ip ua fp)
  then have inv: "sm_inv now' st" and sub: "dom (map_of (active_sessions st)) \<subseteq> used"
    by (auto simp: sm_good_def intro: sm_inv_mono)
  from sub create(2) have fresh: "sid \<notin> dom (map_of (active_sessions st))" by blast
  have "dom (map_of (active_sessions (snd (create_session T h st now' sid user_id ip ua fp))))
          \<subseteq> insert sid used"
    using create_session_dom[of T h st now' sid user_id ip ua fp] sub by blast
  then show ?case
    using sm_inv_create[OF inv fresh, of T h user_id ip ua fp] by (simp add: sm_good_def)
next
  case (validate now now' used st sid ip rim)
  then have inv: "sm_inv now' st" by (auto simp: sm_good_def intro: sm_inv_mono)
  show ?case using sm_inv_validate[OF inv] validate
    by (simp add: sm_good_def validate_session_dom)
next
  case (revoke now now' used st sid reason)
  then have inv: "sm_inv now' st" by (auto simp: sm_good_def intro: sm_inv_mono)
  show ?case using sm_inv_revoke[OF inv] revoke by (simp add: sm_good_def revoke_session_dom)
next
  case (revoke_user now now' used st user_id except)
  then have inv: "sm_inv now' st" by (auto simp: sm_good_def intro: sm_inv_mono)
  show ?case using sm_inv_revoke_user[OF inv] revoke_user by (simp add: sm_good_def revoke_user_dom)
next
  case (count now now' used st user_id)
  then have inv: "sm_inv now' st" by (auto simp: sm_good_def intro: sm_inv_mono)
  show ?case using sm_inv_count[OF inv] count by (simp add: sm_good_def count_dom)
qed

lemma sm_steps_good:
  "(sm_step T h)\<^sup>*\<^sup>* c c' \<Longrightarrow> sm_good c \<Longrightarrow> sm_good c'"
  by (induction rule: rtranclp_induct) (auto intro: sm_step_good)

lemma sm_good_initial: "sm_good (now0, {}, initial_sessions now0)"
  by (simp add: sm_good_def sm_inv_def sm_tracked_def sm_bounded_def sm_owned_def sm_closed_def
        initial_sessions_def session_counts_def)

lemma sm_reachable_good: "sm_reachable T h c \<Longrightarrow> sm_good c"
  unfolding sm_reachable_def using sm_steps_good sm_good_initial by blast

lemma live_sessions_bounded:
  assumes "sm_inv now st"
  shows "card (live_sessions st now u) \<le> max_sessions_per_user"
proof (cases "user_sessions st u")
  case None
  have "live_sessions st now u = {}"
  proof (rule ccontr)
    assume "live_sessions st now u \<noteq> {}"
    then obtain x where "session_counts st now x"
      "map_option s_user_id (map_of (active_sessions st) x) = Some u"
      by (auto simp: live_sessions_def)
    with assms None show False unfolding sm_inv_def sm_tracked_def by fastforce
  qed
  then show ?thesis by simp
next
  case (Some ids)
  have "live_sessions st now u \<subseteq> set (filter (session_counts st now) ids)"
    using assms Some unfolding sm_inv_def sm_tracked_def live_sessions_def by fastforce
  then have "card (live_sessions st now u) \<le> card (set (filter (session_counts st now) ids))"
    by (intro card_mono) auto
  also have "\<dots> \<le> length (filter (session_counts st now) ids)" by (rule card_length)
  also have "\<dots> \<le> max_sessions_per_user"
    using assms Some unfolding sm_inv_def sm_bounded_def by blast
  finally show ?thesis .
qed

lemma validate_gone:
  "sm_gone st sid \<Longrightarrow> fst (validate_session T st now sid ip rim) = None"
  by (auto simp: sm_gone_def validate_session_def split: option.splits)

lemma gone_revoke: "sm_gone st sid \<Longrightarrow> sm_gone (revoke_session st t x r) sid"
proof (cases "map_of (active_sessions st) x")
  case None
  then show "sm_gone st sid \<Longrightarrow> ?thesis" by (simp add: revoke_session_None)
next
  case (Some d)
  show "sm_gone st sid \<Longrightarrow> ?thesis"
    by (auto simp: sm_gone_def revoke_session_active[OF Some] revoke_session_revoked[OF Some])
qed

lemma gone_fold_revoke:
  "sm_gone st sid \<Longrightarrow>
   sm_gone (fold (\<lambda>x s. if P x then revoke_session s t x r else s) xs st) sid"
  by (induction xs arbitrary: st) (auto intro: gone_revoke)

lemma gone_purge_one: "sm_gone st sid \<Longrightarrow> sm_gone (purge_one x st) sid"
  by (auto simp: sm_gone_def purge_one_def delete_conv')

lemma gone_fold_purge: "sm_gone st sid \<Longrightarrow> sm_gone (fold purge_one xs st) sid"
  by (induction xs arbitrary: st) (auto intro: gone_purge_one)

lemma gone_last_cleanup [simp]: "sm_gone (st\<lparr>sm_last_cleanup := t\<rparr>) sid = sm_gone st sid"
  by (simp add: sm_gone_def)

lemma gone_cleanup: "sm_gone st sid \<Longrightarrow> sm_gone (cleanup_expired_sessions st now) sid"
  unfolding cleanup_expired_sessions_alt
  by (auto simp: Let_def simp del: if_True intro!: gone_fold_purge gone_fold_revoke)

lemma gone_get_user_sessions:
  "sm_gone (snd (get_user_sessions st now u)) sid = sm_gone st sid"
  by (simp add: sm_gone_def get_user_sessions_views)

lemma gone_store_session:
  "sm_gone st sid \<Longrightarrow> sid \<noteq> x \<Longrightarrow> sm_gone (store_session st x d) sid"
  by (auto simp: sm_gone_def store_session_def update_conv')

lemma gone_create:
  "sm_gone st sid \<Longrightarrow> sid \<noteq> x \<Longrightarrow>
   sm_gone (snd (create_session T h st now x u ip ua fp)) sid"
  unfolding create_session_alt Let_def
  by (intro gone_store_session)
     (auto intro!: gone_revoke simp: gone_get_user_sessions gone_cleanup)

lemma gone_validate:
  "sm_gone st sid \<Longrightarrow> sm_gone (snd (validate_session T st now x ip rim)) sid"
proof (cases "map_of (active_sessions st) x")
  case None
  then show "sm_gone st sid \<Longrightarrow> ?thesis" by (simp add: validate_session_def)
next
  case (Some d)
  show "sm_gone st sid \<Longrightarrow> ?thesis"
    using Some
    by (cases "x = sid")
       (auto simp: validate_session_def Let_def sm_gone_def update_conv' gone_revoke[unfolded sm_gone_def]
          dest: gone_revoke[unfolded sm_gone_def, of st sid now x "''expired''"])
qed

lemma gone_revoke_user:
  "sm_gone st sid \<Longrightarrow> sm_gone (revoke_user_sessions st now u ex) sid"
  unfolding revoke_user_sessions_def
  by (simp add: case_prod_beta gone_fold_revoke gone_get_user_sessions)

lemma gone_count:
  "sm_gone st sid \<Longrightarrow> sm_gone (snd (get_user_session_count st now u)) sid"
  by (simp add: get_user_session_count_def case_prod_beta gone_get_user_sessions)

lemma sm_step_gone:
  assumes "sm_step T h c c'" and "sid \<in> fst (snd c)" and "sm_gone (snd (snd c)) sid"
  shows "sid \<in> fst (snd c') \<and> sm_gone (snd (snd c')) sid"
  using assms
proof (induction rule: sm_step.induct)
  case (create now now' x used st user_id ip ua fp)
  then have "sid \<noteq> x" by auto
  with create show ?case by (auto intro: gone_create)
qed (auto intro: gone_validate gone_revoke gone_revoke_user gone_count)

lemma sm_steps_gone:
  "(sm_step T h)\<^sup>*\<^sup>* c c' \<Longrightarrow> sid \<in> fst (snd c) \<Longrightarrow> sm_gone (snd (snd c)) sid \<Longrightarrow>
   sid \<in> fst (snd c') \<and> sm_gone (snd (snd c')) sid"
  by (induction rule: rtranclp_induct) (auto dest: sm_step_gone)

lemma revoked_never_validates:
  assumes "sm_reachable T h (now, used, st)" and "sid \<in> set (revoked_sessions st)"
    and "(sm_step T h)\<^sup>*\<^sup>* (now, used, st) (now', used', st')"
  shows "fst (validate_session T st' now'' sid ip rim) = None"
proof -
  from sm_reachable_good[OF assms(1)] have good: "sm_inv now st"
    "dom (map_of (active_sessions st)) \<subseteq> used" by (simp_all add: sm_good_def)
  then have "sid \<in> used" using assms(2) by (auto simp: sm_inv_def sm_closed_def)
  moreover have "sm_gone st sid" using assms(2) by (simp add: sm_gone_def)
  ultimately have "sm_gone st' sid" using sm_steps_gone[OF assms(3), of sid] by simp
  then show ?thesis by (rule validate_gone)
qed

lemma distinct_revoke: "sm_distinct st \<Longrightarrow> sm_distinct (revoke_session st t x r)"
  by (simp add: sm_distinct_def revoke_session_def Let_def distinct_update split: option.splits)

lemma distinct_fold_revoke:
  "sm_distinct st \<Longrightarrow>
   sm_distinct (fold (\<lambda>x s. if P x then revoke_session s t x r else s) xs st)"
  by (induction xs arbitrary: st) (simp_all add: distinct_revoke)

lemma distinct_purge_one: "sm_distinct st \<Longrightarrow> sm_distinct (purge_one x st)"
  by (simp add: sm_distinct_def purge_one_def distinct_delete)

lemma distinct_fold_purge: "sm_distinct st \<Longrightarrow> sm_distinct (fold purge_one xs st)"
  by (induction xs arbitrary: st) (simp_all add: distinct_purge_one)

lemma distinct_last_cleanup [simp]:
  "sm_distinct (st\<lparr>sm_last_cleanup := t\<rparr>) = sm_distinct st"
  by (simp add: sm_distinct_def)

lemma distinct_cleanup: "sm_distinct st \<Longrightarrow> sm_distinct (cleanup_expired_sessions st now)"
proof -
  assume d: "sm_distinct st"
  have "sm_distinct (fold purge_one ys
          (fold (\<lambda>x s. if True then revoke_session s now x ''expired'' else s) xs st))" for xs ys
    by (intro distinct_fold_purge distinct_fold_revoke d)
  then show ?thesis
    unfolding cleanup_expired_sessions_alt using d by (simp add: Let_def del: if_True)
qed

lemma distinct_get_user_sessions:
  "sm_distinct (snd (get_user_sessions st now u)) = sm_distinct st"
  by (simp add: sm_distinct_def get_user_sessions_views)

lemma distinct_store: "sm_distinct st \<Longrightarrow> sm_distinct (store_session st x d)"
  by (simp add: sm_distinct_def store_session_def distinct_update)

lemma distinct_create:
  "sm_distinct st \<Longrightarrow> sm_distinct (snd (create_session T h st now x u ip ua fp))"
  unfolding create_session_alt Let_def
  by (intro distinct_store)
     (simp add: distinct_revoke distinct_get_user_sessions distinct_cleanup)

lemma distinct_validate:
  "sm_distinct st \<Longrightarrow> sm_distinct (snd (validate_session T st now x ip rim))"
proof (cases "map_of (active_sessions st) x")
  case None
  then show "sm_distinct st \<Longrightarrow> ?thesis" by (simp add: validate_session_def)
next
  case (Some d)
  assume ds: "sm_distinct st"
  have "sm_distinct (st\<lparr>active_sessions := AList.update x d' (active_sessions st)\<rparr>)" for d'
    using ds by (simp add: sm_distinct_def distinct_update)
  then show ?thesis
    using Some ds by (simp add: validate_session_def Let_def distinct_revoke)
qed

lemma distinct_revoke_user:
  "sm_distinct st \<Longrightarrow> sm_distinct (revoke_user_sessions st now u ex)"
  unfolding revoke_user_sessions_def
  by (simp add: case_prod_beta distinct_fold_revoke distinct_get_user_sessions)

lemma distinct_count:
  "sm_distinct st \<Longrightarrow> sm_distinct (snd (get_user_session_count st now u))"
  by (simp add: get_user_session_count_def case_prod_beta distinct_get_user_sessions)

lemma sm_step_distinct:
  assumes "sm_step T h c c'" and "sm_distinct (snd (snd c))"
  shows "sm_distinct (snd (snd c'))"
  using assms
  by (induction rule: sm_step.induct)
     (simp_all add: distinct_create distinct_validate distinct_revoke distinct_revoke_user
        distinct_count)

lemma sm_steps_distinct:
  "(sm_step T h)\<^sup>*\<^sup>* c c' \<Longrightarrow> sm_distinct (snd (snd c)) \<Longrightarrow> sm_distinct (snd (snd c'))"
  by (induction rule: rtranclp_induct) (auto dest: sm_step_distinct)

lemma sm_reachable_distinct: "sm_reachable T h (now, used, st) \<Longrightarrow> sm_distinct st"
proof -
  assume "sm_reachable T h (now, used, st)"
  then obtain now0 where "(sm_step T h)\<^sup>*\<^sup>* (now0, {}, initial_sessions now0) (now, used, st)"
    by (auto simp: sm_reachable_def)
  from sm_steps_distinct[OF this] show ?thesis
    by (simp add: sm_distinct_def initial_sessions_def)
qed

lemma unchanged_refl: "sm_unchanged now st st"
  by (simp add: sm_unchanged_def)

lemma unchanged_trans:
  "sm_unchanged now st st' \<Longrightarrow> sm_unchanged now st' st'' \<Longrightarrow> sm_unchanged now st st''"
  by (simp add: sm_unchanged_def)

lemma unchanged_revoke:
  assumes "\<not> session_counts st now x"
  shows "sm_unchanged now st (revoke_session st t x r)"
proof (cases "map_of (active_sessions st) x")
  case None
  then show ?thesis by (simp add: revoke_session_None unchanged_refl)
next
  case (Some d)
  have "session_counts (revoke_session st t x r) now = session_counts st now"
    using assms by (intro ext) (auto simp: revoke_session_counts)
  moreover have "map_of (active_sessions (revoke_session st t x r)) y = map_of (active_sessions st) y"
    if "session_counts st now y" for y
    using that assms by (auto simp: revoke_session_active[OF Some])
  ultimately show ?thesis by (simp add: sm_unchanged_def)
qed

lemma unchanged_purge_one:
  assumes "\<not> session_counts st now x"
  shows "sm_unchanged now st (purge_one x st)"
proof -
  have "session_counts (purge_one x st) now = session_counts st now"
    using assms by (intro ext) (auto simp: purge_one_counts)
  moreover have "map_of (active_sessions (purge_one x st)) y = map_of (active_sessions st) y"
    if "session_counts st now y" for y
    using that assms by (auto simp: purge_one_def delete_conv')
  ultimately show ?thesis by (simp add: sm_unchanged_def)
qed

lemma unchanged_fold_revoke:
  "\<forall>x \<in> set xs. \<not> session_counts st now x \<Longrightarrow>
   sm_unchanged now st (fold (\<lambda>x s. if True then revoke_session s t x r else s) xs st)"
proof (induction xs arbitrary: st)
  case Nil
  then show ?case by (simp add: unchanged_refl)
next
  case (Cons a xs)
  have u: "sm_unchanged now st (revoke_session st t a r)"
    using Cons.prems by (intro unchanged_revoke) simp
  then have "\<forall>x \<in> set xs. \<not> session_counts (revoke_session st t a r) now x"
    using Cons.prems by (simp add: sm_unchanged_def)
  from Cons.IH[OF this] u show ?case by (simp add: unchanged_trans)
qed

lemma unchanged_fold_purge:
  "\<forall>x \<in> set xs. \<not> session_counts st now x \<Longrightarrow> sm_unchanged now st (fold purge_one xs st)"
proof (induction xs arbitrary: st)
  case Nil
  then show ?case by (simp add: unchanged_refl)
next
  case (Cons a xs)
  have u: "sm_unchanged now st (purge_one a st)"
    using Cons.prems by (intro unchanged_purge_one) simp
  then have "\<forall>x \<in> set xs. \<not> session_counts (purge_one a st) now x"
    using Cons.prems by (simp add: sm_unchanged_def)
  from Cons.IH[OF this] u show ?case by (simp add: unchanged_trans)
qed

lemma unchanged_last_cleanup:
  "sm_unchanged now st st' \<Longrightarrow> sm_unchanged now st (st'\<lparr>sm_last_cleanup := t\<rparr>)"
  by (simp add: sm_unchanged_def)

lemma revoked_not_counts: "x \<in> set (revoked_sessions st) \<Longrightarrow> \<not> session_counts st now x"
  by (simp add: session_counts_def split: option.splits)

lemma unchanged_cleanup:
  assumes "sm_distinct st"
  shows "sm_unchanged now st (cleanup_expired_sessions st now)"
proof (cases "now - sm_last_cleanup st < sm_cleanup_interval")
  case True
  then show ?thesis by (simp add: cleanup_expired_sessions_def unchanged_refl)
next
  case False
  define xs where "xs = map fst (filter (\<lambda>(session_id, session_data). s_expires_at session_data < now)
                             (active_sessions st))"
  define st1 where "st1 = fold (\<lambda>sid s. if True then revoke_session s now sid ''expired'' else s) xs st"
  define ys where "ys = filter (\<lambda>session_id.
                            case map_of (active_sessions st1) session_id of
                              None \<Rightarrow> False
                            | Some session_data \<Rightarrow>
                                (case s_revoked_at session_data of
                                   None \<Rightarrow> False
                                 | Some revoked_at \<Rightarrow> now - revoked_at > 24 * 3600))
                    (revoked_sessions st1)"
  have eq: "cleanup_expired_sessions st now = (fold purge_one ys st1)\<lparr>sm_last_cleanup := now\<rparr>"
    unfolding cleanup_expired_sessions_alt using False
    by (simp add: Let_def xs_def st1_def ys_def del: if_True)
  have "\<not> session_counts st now x" if "x \<in> set xs" for x
  proof -
    from that obtain d where d: "(x, d) \<in> set (active_sessions st)" "s_expires_at d < now"
      by (auto simp: xs_def)
    with assms have "map_of (active_sessions st) x = Some d"
      by (simp add: sm_distinct_def)
    then show ?thesis using d(2) by (simp add: session_counts_def)
  qed
  then have u1: "sm_unchanged now st st1"
    unfolding st1_def by (intro unchanged_fold_revoke) simp
  have "\<forall>x \<in> set ys. \<not> session_counts st1 now x"
    by (auto simp: ys_def revoked_not_counts)
  then have u2: "sm_unchanged now st1 (fold purge_one ys st1)"
    by (rule unchanged_fold_purge)
  show ?thesis
    unfolding eq by (intro unchanged_last_cleanup unchanged_trans[OF u1 u2])
qed

lemma arg_min_list_least:
  "x \<in> set xs \<Longrightarrow> f (arg_min_list f xs) \<le> (f x :: int)"
proof -
  assume x: "x \<in> set xs"
  then have "xs \<noteq> []" by auto
  then have "f (arg_min_list f xs) = Min (f ` set xs)" by (rule f_arg_min_list_f)
  also have "\<dots> \<le> f x" using x by (intro Min_le) auto
  finally show ?thesis .
qed

lemma create_evicts_oldest:
  assumes inv: "sm_inv now st" and dist: "sm_distinct st"
    and fresh: "sid \<notin> dom (map_of (active_sessions st))"
    and cap: "card (live_sessions st now u) = max_sessions_per_user"
  shows "\<exists>old \<in> live_sessions st now u.
           (\<forall>s \<in> live_sessions st now u. created_at_of st old \<le> created_at_of st s)
         \<and> old \<in> set (revoked_sessions (snd (create_session T h st now sid u ip ua fp)))
         \<and> (\<exists>d. map_of (active_sessions (snd (create_session T h st now sid u ip ua fp))) old
                   = Some d
                \<and> \<not> s_is_active d \<and> s_revoke_reason d = Some ''session_limit_exceeded'')"
proof -
  let ?V = "live_sessions st now u"
  define st1 where "st1 = cleanup_expired_sessions st now"
  define st2 where "st2 = snd (get_user_sessions st1 now u)"
  define cur where "cur = fst (get_user_sessions st1 now u)"
  define old where "old = oldest_session st2 cur"
  define st3 where "st3 = revoke_session st2 now old ''session_limit_exceeded''"
  have un: "sm_unchanged now st st1" unfolding st1_def by (rule unchanged_cleanup[OF dist])
  have inv1: "sm_inv now st1" unfolding st1_def by (rule sm_inv_cleanup[OF inv])
  have counts1: "session_counts st1 now = session_counts st now"
    using un by (simp add: sm_unchanged_def)
  have A1: "map_of (active_sessions st1) y = map_of (active_sessions st) y"
    if "session_counts st now y" for y
    using un that by (simp add: sm_unchanged_def)
  have V1: "live_sessions st1 now u = ?V"
    unfolding live_sessions_def counts1 using A1 by auto
  have "?V \<noteq> {}" using cap by (auto simp: max_sessions_per_user_def)
  then obtain x where x: "x \<in> live_sessions st1 now u" using V1 by auto
  then obtain ids where ids: "user_sessions st1 u = Some ids"
    using inv1 unfolding sm_inv_def sm_tracked_def live_sessions_def by fastforce
  have cur: "cur = filter (session_counts st1 now) ids"
    unfolding cur_def by (simp add: get_user_sessions_fst ids)
  have set_cur: "set cur = ?V"
  proof
    show "set cur \<subseteq> ?V"
    proof
      fix y assume "y \<in> set cur"
      then have y: "y \<in> set ids" "session_counts st1 now y" by (simp_all add: cur)
      with inv1 ids obtain d where "map_of (active_sessions st1) y = Some d" "s_user_id d = u"
        unfolding sm_inv_def sm_owned_def by blast
      with y(2) have "y \<in> live_sessions st1 now u" by (simp add: live_sessions_def)
      then show "y \<in> ?V" by (simp add: V1)
    qed
    show "?V \<subseteq> set cur"
    proof
      fix y assume "y \<in> ?V"
      then have y: "y \<in> live_sessions st1 now u" by (simp add: V1)
      then have c: "session_counts st1 now y"
        and uy: "map_option s_user_id (map_of (active_sessions st1) y) = Some u"
        by (simp_all add: live_sessions_def)
      from inv1 c obtain d ids' where "map_of (active_sessions st1) y = Some d"
        "user_sessions st1 (s_user_id d) = Some ids'" "y \<in> set ids'"
        unfolding sm_inv_def sm_tracked_def by blast
      with uy ids have "y \<in> set ids" by auto
      with c show "y \<in> set cur" by (simp add: cur)
    qed
  qed
  have dist_cur: "distinct cur"
    using inv1 ids unfolding sm_inv_def sm_bounded_def cur by auto
  have len: "length cur = max_sessions_per_user"
    using distinct_card[OF dist_cur] set_cur cap by simp
  then have ne: "cur \<noteq> []" by (auto simp: max_sessions_per_user_def)
  have old_in: "old \<in> set cur" unfolding old_def using ne by (rule oldest_session_in)
  then have old_V: "old \<in> ?V" by (simp add: set_cur)
  have A2: "active_sessions st2 = active_sessions st1" "revoked_sessions st2 = revoked_sessions st1"
    unfolding st2_def by (simp_all add: get_user_sessions_views)
  have created: "created_at_of st2 y = created_at_of st y" if "y \<in> ?V" for y
  proof -
    from that have "session_counts st now y" by (simp add: live_sessions_def)
    then show ?thesis by (simp add: created_at_of_def A2 A1)
  qed
  have least: "created_at_of st old \<le> created_at_of st s" if "s \<in> ?V" for s
  proof -
    from that have "s \<in> set cur" by (simp add: set_cur)
    then have "created_at_of st2 old \<le> created_at_of st2 s"
      unfolding old_def oldest_session_def by (rule arg_min_list_least)
    then show ?thesis using created[OF that] created[OF old_V] by simp
  qed
  from old_V obtain d where d: "map_of (active_sessions st) old = Some d"
    by (auto simp: live_sessions_def)
  from old_V have "session_counts st now old" by (simp add: live_sessions_def)
  then have d2: "map_of (active_sessions st2) old = Some d" using d by (simp add: A2 A1)
  have R3: "old \<in> set (revoked_sessions st3)"
    unfolding st3_def by (simp add: revoke_session_revoked[OF d2])
  have A3: "map_of (active_sessions st3) old
              = Some (d\<lparr>s_is_active := False, s_revoked_at := Some now,
                       s_revoke_reason := Some ''session_limit_exceeded''\<rparr>)"
    unfolding st3_def by (simp add: revoke_session_active[OF d2])
  have "old \<noteq> sid" using fresh d by auto
  have final: "snd (create_session T h st now sid u ip ua fp)
          = store_session st3 sid
              \<lparr>s_user_id = u, s_client_ip = ip, s_user_agent_hash = h ua,
               s_device_fingerprint = fp, s_created_at = now, s_last_accessed = now,
               s_expires_at = now + 60 * T, s_access_count = 0, s_is_active = True,
               s_revoked_at = None, s_revoke_reason = None\<rparr>"
    unfolding create_session_alt Let_def
    using len by (simp add: st1_def[symmetric] cur_def[symmetric] st2_def[symmetric]
        old_def[symmetric] st3_def[symmetric])
  have "old \<in> set (revoked_sessions (snd (create_session T h st now sid u ip ua fp)))"
    unfolding final using R3 by (simp add: store_session_def)
  moreover have "map_of (active_sessions (snd (create_session T h st now sid u ip ua fp))) old
              = Some (d\<lparr>s_is_active := False, s_revoked_at := Some now,
                       s_revoke_reason := Some ''session_limit_exceeded''\<rparr>)"
    unfolding final using A3 \<open>old \<noteq> sid\<close> by (simp add: store_session_def update_conv')
  ultimately show ?thesis using old_V least by (intro bexI[of _ old]) auto
qed

lemma create_session_returns:
  "fst (create_session T h st now sid u ip ua fp) = sid"
  by (simp add: create_session_def Let_def case_prod_beta)

lemma create_session_stores:
  "\<exists>d. map_of (active_sessions (snd (create_session T h st now sid u ip ua fp))) sid = Some d
       \<and> s_user_id d = u \<and> s_is_active d \<and> s_created_at d = now"
  unfolding create_session_alt Let_def by (simp add: store_session_def update_conv')

lemma five_sessions_eq:
  "five_sessions =
     \<lparr>active_sessions = [(''s1'', alice_session 1), (''s2'', alice_session 2),
                         (''s3'', alice_session 3), (''s4'', alice_session 4),
                         (''s5'', alice_session 5)],
      revoked_sessions = [],
      user_sessions = [''alice'' \<mapsto> [''s1'', ''s2'', ''s3'', ''s4'', ''s5'']],
      sm_last_cleanup = 0\<rparr>"
  by (simp add: five_sessions_def alice_creates_def create_session_def initial_sessions_def
        cleanup_expired_sessions_def sm_cleanup_interval_def get_user_sessions_def
        session_counts_def max_sessions_per_user_def set_add_def alice_session_def Let_def)

lemma live_five_sessions:
  "t \<le> 1801 \<Longrightarrow> live_sessions five_sessions t ''alice'' = {''s1'', ''s2'', ''s3'', ''s4'', ''s5''}"
  by (auto simp: live_sessions_def session_counts_def five_sessions_eq alice_session_def
      split: if_splits)

lemma reachable_five_sessions:
  "sm_reachable 30 (\<lambda>ua. ua) (5, {''s5'', ''s4'', ''s3'', ''s2'', ''s1''}, five_sessions)"
proof -
  let ?S = "sm_step 30 (\<lambda>ua. ua)"
  have 1: "?S (0, {}, initial_sessions 0) (1, {''s1''}, alice_creates (initial_sessions 0) 1 ''s1'')"
    unfolding alice_creates_def by (rule sm_step.create) simp_all
  have 2: "?S (1, {''s1''}, alice_creates (initial_sessions 0) 1 ''s1'')
      (2, {''s2'', ''s1''}, alice_creates (alice_creates (initial_sessions 0) 1 ''s1'') 2 ''s2'')"
    unfolding alice_creates_def by (rule sm_step.create) simp_all
  have 3: "?S (2, {''s2'', ''s1''}, alice_creates (alice_creates (initial_sessions 0) 1 ''s1'') 2 ''s2'')
      (3, {''s3'', ''s2'', ''s1''},
       alice_creates (alice_creates (alice_creates (initial_sessions 0) 1 ''s1'') 2 ''s2'') 3 ''s3'')"
    unfolding alice_creates_def by (rule sm_step.create) simp_all
  have 4: "?S (3, {''s3'', ''s2'', ''s1''},
       alice_creates (alice_creates (alice_creates (initial_sessions 0) 1 ''s1'') 2 ''s2'') 3 ''s3'')
      (4, {''s4'', ''s3'', ''s2'', ''s1''},
       alice_creates (alice_creates (alice_creates (alice_creates
         (initial_sessions 0) 1 ''s1'') 2 ''s2'') 3 ''s3'') 4 ''s4'')"
    unfolding alice_creates_def by (rule sm_step.create) simp_all
  have 5: "?S (4, {''s4'', ''s3'', ''s2'', ''s1''},
       alice_creates (alice_creates (alice_creates (alice_creates
         (initial_sessions 0) 1 ''s1'') 2 ''s2'') 3 ''s3'') 4 ''s4'')
      (5, {''s5'', ''s4'', ''s3'', ''s2'', ''s1''}, five_sessions)"
    unfolding alice_creates_def five_sessions_def by (rule sm_step.create) simp_all
  have "?S\<^sup>*\<^sup>* (0, {}, initial_sessions 0) (5, {''s5'', ''s4'', ''s3'', ''s2'', ''s1''}, five_sessions)"
    using 1 2 3 4 5 by (meson rtranclp.rtrancl_into_rtrancl rtranclp.rtrancl_refl)
  then show ?thesis unfolding sm_reachable_def by blast
qed

lemma five_sessions_created_at:
  "created_at_of five_sessions ''s1'' = 1" "created_at_of five_sessions ''s2'' = 2"
  "created_at_of five_sessions ''s3'' = 3" "created_at_of five_sessions ''s4'' = 4"
  "created_at_of five_sessions ''s5'' = 5"
  by (simp_all add: created_at_of_def five_sessions_eq alice_session_def)

lemma five_sessions_oldest:
  assumes "old \<in> live_sessions five_sessions 6 ''alice''"
    and "\<forall>s \<in> live_sessions five_sessions 6 ''alice''.
          created_at_of five_sessions old \<le> created_at_of five_sessions s"
  shows "old = ''s1''"
proof -
  have least: "created_at_of five_sessions old \<le> 1"
    using assms(2) five_sessions_created_at(1) by (simp add: live_five_sessions)
  have "old = ''s1'' \<or> old = ''s2'' \<or> old = ''s3'' \<or> old = ''s4'' \<or> old = ''s5''"
    using assms(1) by (simp add: live_five_sessions)
  then show ?thesis
  proof (elim disjE)
    assume "old = ''s2''" with least five_sessions_created_at(2) show ?thesis by simp
  next
    assume "old = ''s3''" with least five_sessions_created_at(3) show ?thesis by simp
  next
    assume "old = ''s4''" with least five_sessions_created_at(4) show ?thesis by simp
  next
    assume "old = ''s5''" with least five_sessions_created_at(5) show ?thesis by simp
  qed
qed

lemma reachable_five_sessions_revoked:
  "sm_reachable 30 (\<lambda>ua. ua)
     (6, {''s5'', ''s4'', ''s3'', ''s2'', ''s1''}, revoke_session five_sessions 6 ''s1'' ''manual'')"
proof -
  let ?used = "{''s5'', ''s4'', ''s3'', ''s2'', ''s1''}"
  obtain now0 where "(sm_step 30 (\<lambda>ua. ua))\<^sup>*\<^sup>* (now0, {}, initial_sessions now0) (5, ?used, five_sessions)"
    using reachable_five_sessions unfolding sm_reachable_def by blast
  moreover have "sm_step 30 (\<lambda>ua. ua) (5, ?used, five_sessions)
      (6, ?used, revoke_session five_sessions 6 ''s1'' ''manual'')"
    by (rule sm_step.revoke) simp
  ultimately have "(sm_step 30 (\<lambda>ua. ua))\<^sup>*\<^sup>* (now0, {}, initial_sessions now0)
      (6, ?used, revoke_session five_sessions 6 ''s1'' ''manual'')"
    by (rule rtranclp.rtrancl_into_rtrancl)
  then show ?thesis unfolding sm_reachable_def by blast
qed

lemma five_sessions_revoked_s1:
  "''s1'' \<in> set (revoked_sessions (revoke_session five_sessions 6 ''s1'' ''manual''))"
  by (simp add: revoke_session_def five_sessions_eq Let_def set_add_def)

lemma five_sessions_full:
  "card (live_sessions five_sessions 6 ''alice'') = max_sessions_per_user"
  by (simp add: live_five_sessions max_sessions_per_user_def)

text \<open>
  C6. Session cap with oldest-first eviction and permanent revocation.  In every state reachable
  from the empty session store by calls of \<open>create_session\<close>, \<open>validate_session\<close>,
  \<open>revoke_session\<close>, \<open>revoke_user_sessions\<close> and \<open>get_user_session_count\<close> (the clock
  never runs backwards and every generated session id is new), and at every later time:
  \<^item> each user has at most \<open>max_sessions_per_user\<close> sessions that are active, unrevoked and
    unexpired;
  \<^item> creating a session for a user who has exactly \<open>max_sessions_per_user\<close> such sessions
    returns the new session id, stores the new session as active for that user, and revokes one
    of the user's live sessions whose \<open>created_at\<close> is least, with reason
    \<open>session_limit_exceeded\<close>;
  \<^item> a session id in the revoked set is refused by \<open>validate_session\<close> after any further
    sequence of calls, whatever the time, address and address-matching flag.
\<close>
theorem session_cap_eviction_revocation:
  assumes "sm_reachable T h (now, used, st)"
  shows "(\<forall>now' u. now \<le> now' \<longrightarrow> card (live_sessions st now' u) \<le> max_sessions_per_user)
       \<and> (\<forall>now' sid u ip ua fp.
             now \<le> now' \<longrightarrow> sid \<notin> used \<longrightarrow>
             card (live_sessions st now' u) = max_sessions_per_user \<longrightarrow>
               fst (create_session T h st now' sid u ip ua fp) = sid
             \<and> (\<exists>d. map_of (active_sessions (snd (create_session T h st now' sid u ip ua fp))) sid
                       = Some d \<and> s_user_id d = u \<and> s_is_active d)
             \<and> (\<exists>old \<in> live_sessions st now' u.
                   (\<forall>s \<in> live_sessions st now' u. created_at_of st old \<le> created_at_of st s)
                 \<and> old \<in> set (revoked_sessions (snd (create_session T h st now' sid u ip ua fp)))
                 \<and> (\<exists>d. map_of (active_sessions
                              (snd (create_session T h st now' sid u ip ua fp))) old = Some d
                        \<and> \<not> s_is_active d
                        \<and> s_revoke_reason d = Some ''session_limit_exceeded'')))
       \<and> (\<forall>sid now' used' st' now'' ip rim.
             sid \<in> set (revoked_sessions st) \<longrightarrow>
             (sm_step T h)\<^sup>*\<^sup>* (now, used, st) (now', used', st') \<longrightarrow>
               fst (validate_session T st' now'' sid ip rim) = None)"
proof -
  from sm_reachable_good[OF assms] have inv: "sm_inv now st"
    and sub: "dom (map_of (active_sessions st)) \<subseteq> used" by (simp_all add: sm_good_def)
  have dist: "sm_distinct st" by (rule sm_reachable_distinct[OF assms])
  have a: "card (live_sessions st now' u) \<le> max_sessions_per_user" if "now \<le> now'" for now' u
    by (rule live_sessions_bounded[OF sm_inv_mono[OF inv that]])
  have b: "fst (create_session T h st now' sid u ip ua fp) = sid
             \<and> (\<exists>d. map_of (active_sessions (snd (create_session T h st now' sid u ip ua fp))) sid
                       = Some d \<and> s_user_id d = u \<and> s_is_active d)
             \<and> (\<exists>old \<in> live_sessions st now' u.
                   (\<forall>s \<in> live_sessions st now' u. created_at_of st old \<le> created_at_of st s)
                 \<and> old \<in> set (revoked_sessions (snd (create_session T h st now' sid u ip ua fp)))
                 \<and> (\<exists>d. map_of (active_sessions
                              (snd (create_session T h st now' sid u ip ua fp))) old = Some d
                        \<and> \<not> s_is_active d
                        \<and> s_revoke_reason d = Some ''session_limit_exceeded''))"
    if "now \<le> now'" "sid \<notin> used" "card (live_sessions st now' u) = max_sessions_per_user"
    for now' sid u ip ua fp
  proof -
    have fresh: "sid \<notin> dom (map_of (active_sessions st))" using sub that(2) by blast
    from create_session_stores[of T h st now' sid u ip ua fp]
    have "\<exists>d. map_of (active_sessions (snd (create_session T h st now' sid u ip ua fp))) sid
                       = Some d \<and> s_user_id d = u \<and> s_is_active d" by blast
    then show ?thesis
      using create_evicts_oldest[OF sm_inv_mono[OF inv that(1)] dist fresh that(3), of T h ip ua fp]
      by (simp add: create_session_returns)
  qed
  have c: "fst (validate_session T st' now'' sid ip rim) = None"
    if "sid \<in> set (revoked_sessions st)" "(sm_step T h)\<^sup>*\<^sup>* (now, used, st) (now', used', st')"
    for sid now' used' st' now'' ip rim
    by (rule revoked_never_validates[OF assms that])
  show ?thesis using a b c by blast
qed

theorem session_cap_eviction_revocation_witness:
  "sm_reachable 30 (\<lambda>ua. ua) (5, {''s5'', ''s4'', ''s3'', ''s2'', ''s1''}, five_sessions)
   \<and> card (live_sessions five_sessions 5 ''alice'') \<le> max_sessions_per_user
   \<and> card (live_sessions five_sessions 6 ''alice'') = max_sessions_per_user
   \<and> fst (create_session 30 (\<lambda>ua. ua) five_sessions 6 ''s6'' ''alice'' ''10.0.0.1'' ''ua'' None)
       = ''s6''
   \<and> ''s1'' \<in> set (revoked_sessions
         (snd (create_session 30 (\<lambda>ua. ua) five_sessions 6 ''s6'' ''alice'' ''10.0.0.1'' ''ua'' None)))
   \<and> sm_reachable 30 (\<lambda>ua. ua)
        (6, {''s5'', ''s4'', ''s3'', ''s2'', ''s1''}, revoke_session five_sessions 6 ''s1'' ''manual'')
   \<and> ''s1'' \<in> set (revoked_sessions (revoke_session five_sessions 6 ''s1'' ''manual''))
   \<and> fst (validate_session 30 (revoke_session five_sessions 6 ''s1'' ''manual'') 7 ''s1''
            ''10.0.0.1'' True) = None"
proof -
  let ?used = "{''s5'', ''s4'', ''s3'', ''s2'', ''s1''}"
  let ?st' = "snd (create_session 30 (\<lambda>ua. ua) five_sessions 6 ''s6'' ''alice'' ''10.0.0.1'' ''ua'' None)"
  let ?rst = "revoke_session five_sessions 6 ''s1'' ''manual''"
  note r5 = reachable_five_sessions
  note rr = reachable_five_sessions_revoked
  note card6 = five_sessions_full
  note in_r = five_sessions_revoked_s1
  note main = session_cap_eviction_revocation[OF r5]
  note cap = conjunct1[OF main]
  note evict = conjunct1[OF conjunct2[OF main]]
  note never = conjunct2[OF conjunct2[OF session_cap_eviction_revocation[OF rr]]]
  have le55: "(5::int) \<le> 5" and le56: "(5::int) \<le> 6" by simp_all
  have fresh: "''s6'' \<notin> ?used" by simp
  have le5: "card (live_sessions five_sessions 5 ''alice'') \<le> max_sessions_per_user"
    by (rule cap[rule_format, OF le55])
  note ev = evict[rule_format, OF le56 fresh card6, of "''10.0.0.1''" "''ua''" None]
  have ret: "fst (create_session 30 (\<lambda>ua. ua) five_sessions 6 ''s6'' ''alice'' ''10.0.0.1'' ''ua'' None) = ''s6''"
    by (rule conjunct1[OF ev])
  from conjunct2[OF conjunct2[OF ev]]
  obtain old where old: "old \<in> live_sessions five_sessions 6 ''alice''"
    "\<forall>s \<in> live_sessions five_sessions 6 ''alice''.
        created_at_of five_sessions old \<le> created_at_of five_sessions s"
    "old \<in> set (revoked_sessions ?st')" by blast
  have "old = ''s1''" by (rule five_sessions_oldest[OF old(1,2)])
  then have s1: "''s1'' \<in> set (revoked_sessions ?st')" using old(3) by simp
  have val: "fst (validate_session 30 ?rst 7 ''s1'' ''10.0.0.1'' True) = None"
    by (rule never[rule_format, OF in_r rtranclp.rtrancl_refl])
  show ?thesis
    by (intro conjI) (rule r5 le5 card6 ret s1 rr in_r val)+
qed

end
